theory Spec2Isabelle
  imports Main "HOL-Library.AList" "HOL-Library.Multiset" "HOL-Library.Word"
begin

section \<open>Python values and dictionaries\<close>

text \<open>
  The program is \<^verbatim>\<open>distributed_memcached.py\<close>: a consistent hash ring
  (\<^verbatim>\<open>ConsistentHashRing\<close>) and a replicating client on top of it
  (\<^verbatim>\<open>DistributedMemcachedClient\<close>).

  A Python \<^verbatim>\<open>dict\<close> keeps its keys in insertion order: assigning to a key that is
  present keeps its place, assigning to a new key appends it, \<^verbatim>\<open>del\<close> removes it.
  That is an association list under \<open>AList.update\<close> and \<open>AList.delete\<close>;
  \<^verbatim>\<open>k in d\<close> is \<open>map_of d k \<noteq> None\<close>, \<^verbatim>\<open>d[k]\<close> is \<open>map_of d k\<close> with
  \<open>None\<close> raising \<^verbatim>\<open>KeyError\<close>, and \<^verbatim>\<open>len(d)\<close> is \<open>length d\<close>.
\<close>

datatype py_error = KeyError | IndexError | UnicodeEncodeError

type_synonym ('k, 'v) dict = "('k \<times> 'v) list"

text \<open>
  The values a memcached client hands back: \<^verbatim>\<open>None\<close>, a \<^verbatim>\<open>bytes\<close> object, a
  \<^verbatim>\<open>str\<close> (a sequence of code points) or, with a deserialiser, some other object,
  here a Boolean or an integer.
\<close>

type_synonym bytes = "8 word list"
type_synonym unicode = "nat list"

datatype pyval = PNone | PBool bool | PBytes bytes | PStr unicode | PInt int

text \<open>
  \<^verbatim>\<open>bytes.decode()\<close> is strict UTF-8: \<open>None\<close> stands for
  \<^verbatim>\<open>UnicodeDecodeError\<close>. A lead byte announces one to three continuation bytes
  \<^verbatim>\<open>10xxxxxx\<close>; overlong forms, surrogates and code points beyond
  \<^verbatim>\<open>0x10FFFF\<close> are refused.
\<close>

definition is_cont :: "8 word \<Rightarrow> bool" where
  "is_cont b = (0x80 \<le> b \<and> b \<le> 0xBF)"

definition cont_bits :: "8 word \<Rightarrow> nat" where
  "cont_bits b = unat b - 0x80"

fun utf8_decode :: "bytes \<Rightarrow> unicode option" where
  "utf8_decode [] = Some []"
| "utf8_decode (b # bs) =
     (if b < 0x80 then map_option (Cons (unat b)) (utf8_decode bs)
      else if 0xC2 \<le> b \<and> b \<le> 0xDF then
        (case bs of
           c1 # bs1 \<Rightarrow>
             if is_cont c1
             then map_option (Cons ((unat b - 0xC0) * 64 + cont_bits c1)) (utf8_decode bs1)
             else None
         | _ \<Rightarrow> None)
      else if 0xE0 \<le> b \<and> b \<le> 0xEF then
        (case bs of
           c1 # c2 # bs2 \<Rightarrow>
             (let cp = ((unat b - 0xE0) * 64 + cont_bits c1) * 64 + cont_bits c2 in
              if is_cont c1 \<and> is_cont c2 \<and> 0x800 \<le> cp \<and> \<not> (0xD800 \<le> cp \<and> cp \<le> 0xDFFF)
              then map_option (Cons cp) (utf8_decode bs2)
              else None)
         | _ \<Rightarrow> None)
      else if 0xF0 \<le> b \<and> b \<le> 0xF4 then
        (case bs of
           c1 # c2 # c3 # bs3 \<Rightarrow>
             (let cp = (((unat b - 0xF0) * 64 + cont_bits c1) * 64 + cont_bits c2) * 64
                         + cont_bits c3 in
              if is_cont c1 \<and> is_cont c2 \<and> is_cont c3 \<and> 0x10000 \<le> cp \<and> cp \<le> 0x10FFFF
              then map_option (Cons cp) (utf8_decode bs3)
              else None)
         | _ \<Rightarrow> None)
      else None)"

text \<open>
  A \<^verbatim>\<open>str\<close> is a sequence of code points, each at most \<^verbatim>\<open>0x10FFFF\<close>.
  \<^verbatim>\<open>str.encode()\<close> gives its UTF-8 bytes, one to four per code point, and raises
  \<^verbatim>\<open>UnicodeEncodeError\<close> on a surrogate (\<^verbatim>\<open>0xD800\<close> to \<^verbatim>\<open>0xDFFF\<close>), which
  a \<^verbatim>\<open>str\<close> may hold, as \<^verbatim>\<open>chr(0xD800)\<close> does. A number beyond
  \<^verbatim>\<open>0x10FFFF\<close> is no code point and is refused as well.
\<close>

definition encode_point :: "nat \<Rightarrow> string" where
  "encode_point cp =
     (if cp < 0x80 then [char_of cp]
      else if cp < 0x800 then [char_of (0xC0 + cp div 64), char_of (0x80 + cp mod 64)]
      else if cp < 0x10000 then
        [char_of (0xE0 + cp div 4096), char_of (0x80 + cp div 64 mod 64),
         char_of (0x80 + cp mod 64)]
      else
        [char_of (0xF0 + cp div 262144), char_of (0x80 + cp div 4096 mod 64),
         char_of (0x80 + cp div 64 mod 64), char_of (0x80 + cp mod 64)])"

fun utf8_encode :: "unicode \<Rightarrow> py_error + string" where
  "utf8_encode [] = Inr []"
| "utf8_encode (cp # cps) =
     (if (0xD800 \<le> cp \<and> cp \<le> 0xDFFF) \<or> 0x10FFFF < cp then Inl UnicodeEncodeError
      else (case utf8_encode cps of
              Inl e \<Rightarrow> Inl e
            | Inr bs \<Rightarrow> Inr (encode_point cp @ bs)))"

section \<open>The bisect module\<close>

text \<open>
  \<^verbatim>\<open>bisect.bisect\<close> (that is \<^verbatim>\<open>bisect_right\<close>) and \<^verbatim>\<open>bisect.bisect_left\<close>
  are the standard library's binary searches, called here with \<^verbatim>\<open>lo = 0\<close> and
  \<^verbatim>\<open>hi = len(a)\<close>, so that \<^verbatim>\<open>a[mid]\<close> is always in range:
  \<^verbatim>\<open>
    while lo < hi:
        mid = (lo + hi) // 2
        if x < a[mid]: hi = mid        # bisect_right
        else: lo = mid + 1
    return lo
  \<close>
  and, for \<^verbatim>\<open>bisect_left\<close>, \<^verbatim>\<open>if a[mid] < x: lo = mid + 1 else: hi = mid\<close>.
\<close>

function bisect_right_loop :: "int list \<Rightarrow> int \<Rightarrow> nat \<Rightarrow> nat \<Rightarrow> nat" where
  "bisect_right_loop a x lo hi =
     (if lo < hi then
        (let mid = (lo + hi) div 2 in
         if x < a ! mid then bisect_right_loop a x lo mid
         else bisect_right_loop a x (mid + 1) hi)
      else lo)"
  by pat_completeness auto
termination
  by (relation "measure (\<lambda>(a, x, lo, hi). hi - lo)") auto

function bisect_left_loop :: "int list \<Rightarrow> int \<Rightarrow> nat \<Rightarrow> nat \<Rightarrow> nat" where
  "bisect_left_loop a x lo hi =
     (if lo < hi then
        (let mid = (lo + hi) div 2 in
         if a ! mid < x then bisect_left_loop a x (mid + 1) hi
         else bisect_left_loop a x lo mid)
      else lo)"
  by pat_completeness auto
termination
  by (relation "measure (\<lambda>(a, x, lo, hi). hi - lo)") auto

declare bisect_right_loop.simps [simp del]
declare bisect_left_loop.simps [simp del]

definition bisect :: "int list \<Rightarrow> int \<Rightarrow> nat" where
  "bisect a x = bisect_right_loop a x 0 (length a)"

definition bisect_left :: "int list \<Rightarrow> int \<Rightarrow> nat" where
  "bisect_left a x = bisect_left_loop a x 0 (length a)"

section \<open>ConsistentHashRing\<close>

text \<open>
  The three fields set in \<^verbatim>\<open>__init__\<close>, plus \<^verbatim>\<open>replicas\<close>. A client handle is an
  opaque value of type \<open>'c\<close>.
\<close>

record 'c hash_ring =
  replicas :: int
  ring :: "int list"
  hash2node :: "(int, string) dict"
  nodes :: "(string, 'c) dict"

definition init_ring :: "int \<Rightarrow> 'c hash_ring" where
  "init_ring v = \<lparr>replicas = v, ring = [], hash2node = [], nodes = []\<rparr>"

text \<open>
  \<^verbatim>\<open>_hash\<close> is \<^verbatim>\<open>int(hashlib.md5(key.encode()).hexdigest(), 16)\<close>. The digest is
  the standard library's; every function below takes the hash as its first argument
  \<open>H\<close>, and nothing is assumed of it. A \<open>string\<close> of this theory is a
  \<^verbatim>\<open>str\<close> given by its UTF-8 bytes, so that \<^verbatim>\<open>key.encode()\<close> succeeds on it and
  \<open>H\<close> is the digest of those bytes as a number; \<open>hash_str\<close> below is
  \<^verbatim>\<open>_hash\<close> on any \<^verbatim>\<open>str\<close>, with the encoding that may raise.

  \<^verbatim>\<open>f"{node_name}:{i}"\<close> is the name, a colon and the decimal digits of \<open>i\<close>.
\<close>

function str_nat :: "nat \<Rightarrow> string" where
  "str_nat n =
     (if n < 10 then [''0123456789'' ! n]
      else str_nat (n div 10) @ [''0123456789'' ! (n mod 10)])"
  by pat_completeness auto
termination
  by (relation "measure id") auto

declare str_nat.simps [simp del]

definition point_label :: "string \<Rightarrow> nat \<Rightarrow> string" where
  "point_label node_name i = node_name @ '':'' @ str_nat i"

text \<open>One turn of the loop in \<^verbatim>\<open>add_node\<close>, for the index \<open>i\<close>.\<close>

definition add_point :: "(string \<Rightarrow> int) \<Rightarrow> string \<Rightarrow> nat \<Rightarrow> 'c hash_ring \<Rightarrow> 'c hash_ring" where
  "add_point H node_name i r =
     (let h = H (point_label node_name i) in
      r\<lparr>hash2node := AList.update h node_name (hash2node r), ring := ring r @ [h]\<rparr>)"

definition add_node :: "(string \<Rightarrow> int) \<Rightarrow> 'c hash_ring \<Rightarrow> string \<Rightarrow> 'c \<Rightarrow> 'c hash_ring" where
  "add_node H r node_name client =
     (if map_of (nodes r) node_name \<noteq> None then r
      else
        (let r1 = r\<lparr>nodes := AList.update node_name client (nodes r)\<rparr>;
             r2 = fold (add_point H node_name) [0 ..< nat (replicas r)] r1
         in r2\<lparr>ring := sort (ring r2)\<rparr>))"

text \<open>
  One turn of the loop in \<^verbatim>\<open>remove_node\<close>: the entry of \<open>h\<close> leaves the dictionary
  and, when \<^verbatim>\<open>bisect_left\<close> lands on \<open>h\<close>, that one element is popped from the ring.
\<close>

definition ring_pop :: "int list \<Rightarrow> int \<Rightarrow> int list" where
  "ring_pop a h =
     (let idx = bisect_left a h in
      if idx < length a \<and> a ! idx = h then take idx a @ drop (Suc idx) a else a)"

definition remove_point :: "int \<Rightarrow> 'c hash_ring \<Rightarrow> 'c hash_ring" where
  "remove_point h r = r\<lparr>hash2node := AList.delete h (hash2node r), ring := ring_pop (ring r) h\<rparr>"

definition remove_node :: "'c hash_ring \<Rightarrow> string \<Rightarrow> 'c hash_ring" where
  "remove_node r node_name =
     (if map_of (nodes r) node_name = None then r
      else
        (let r1 = r\<lparr>nodes := AList.delete node_name (nodes r)\<rparr>;
             to_remove = map fst (filter (\<lambda>(h, n). n = node_name) (hash2node r1))
         in fold remove_point to_remove r1))"

text \<open>
  \<^verbatim>\<open>get_node\<close> returns \<^verbatim>\<open>(None, None)\<close> on an empty ring (\<open>Inr None\<close>), the pair
  of the name and its client otherwise; the two dictionary reads raise
  \<^verbatim>\<open>KeyError\<close> on a missing key.
\<close>

definition get_node :: "(string \<Rightarrow> int) \<Rightarrow> 'c hash_ring \<Rightarrow> string \<Rightarrow> py_error + (string \<times> 'c) option" where
  "get_node H r key =
     (if ring r = [] then Inr None
      else
        (let h = H key;
             idx = bisect (ring r) h;
             idx = (if idx = length (ring r) then 0 else idx)
         in if \<not> idx < length (ring r) then Inl IndexError
            else
              (case map_of (hash2node r) (ring r ! idx) of
                 None \<Rightarrow> Inl KeyError
               | Some node_name \<Rightarrow>
                   (case map_of (nodes r) node_name of
                      None \<Rightarrow> Inl KeyError
                    | Some client \<Rightarrow> Inr (Some (node_name, client))))))"

text \<open>
  The \<^verbatim>\<open>while\<close> loop of \<^verbatim>\<open>get_nodes_for_key\<close>, with its state \<open>i\<close>, \<open>found\<close>
  and \<open>used_names\<close>. Nothing in its text bounds the number of turns, so it is a partial
  function: \<open>None\<close> is a walk that never returns, \<open>Some (Inl e)\<close> a raised error
  and \<open>Some (Inr found)\<close> the returned list. The source's one \<^verbatim>\<open>if\<close> that
  appends to \<open>found\<close> and adds to \<open>used_names\<close> is written once per variable,
  \<open>found'\<close> and \<open>used'\<close>, under the same condition.
\<close>

partial_function (option) nodes_walk ::
  "'c hash_ring \<Rightarrow> int \<Rightarrow> nat \<Rightarrow> (string \<times> 'c) list \<Rightarrow> string set
     \<Rightarrow> (py_error + (string \<times> 'c) list) option" where
  "nodes_walk r cnt i found used_names =
     (let ring_len = length (ring r) in
      if int (length found) < cnt \<and> ring_len > 0 then
        (let i = (if i = ring_len then 0 else i) in
         if \<not> i < ring_len then Some (Inl IndexError)
         else
           (case map_of (hash2node r) (ring r ! i) of
              None \<Rightarrow> Some (Inl KeyError)
            | Some node_name \<Rightarrow>
                (let found' =
                       (if node_name \<notin> used_names
                        then (case map_of (nodes r) node_name of
                                None \<Rightarrow> found
                              | Some client \<Rightarrow> found @ [(node_name, client)])
                        else found);
                     used' =
                       (if node_name \<notin> used_names \<and> map_of (nodes r) node_name \<noteq> None
                        then insert node_name used_names else used_names);
                     i' = i + 1
                 in if card used' = length (nodes r) then Some (Inr found')
                    else nodes_walk r cnt i' found' used')))
      else Some (Inr found))"

declare nodes_walk.simps [code]

definition get_nodes_for_key ::
  "(string \<Rightarrow> int) \<Rightarrow> 'c hash_ring \<Rightarrow> string \<Rightarrow> int \<Rightarrow> (py_error + (string \<times> 'c) list) option" where
  "get_nodes_for_key H r key cnt =
     (if ring r = [] then Some (Inr [])
      else
        (let h = H key;
             idx = bisect (ring r) h
         in nodes_walk r cnt idx [] {}))"

section \<open>The memcached nodes\<close>

text \<open>
  The nodes are outside the program: \<^verbatim>\<open>client.set\<close>, \<^verbatim>\<open>client.get\<close> and
  \<^verbatim>\<open>client.delete\<close> of pymemcache either return or raise. The world is the list of
  the calls made so far, and the nodes are any function \<open>srv\<close> from that history and
  the next call to its outcome, so that a node may answer differently each time.
  \<open>Raises\<close> is an exception derived from \<^verbatim>\<open>Exception\<close>, the kind that the
  \<^verbatim>\<open>try\<close> statements of the client catch.
\<close>

datatype 'c call = Set_call 'c string pyval int | Get_call 'c string | Delete_call 'c string

datatype reply = Raises | Returns pyval

type_synonym 'c server = "'c call list \<Rightarrow> 'c call \<Rightarrow> reply"

text \<open>The outcomes of a sequence of calls made one after the other, from the history \<open>w\<close>.\<close>

fun replies :: "'c server \<Rightarrow> 'c call list \<Rightarrow> 'c call list \<Rightarrow> reply list" where
  "replies srv w [] = []"
| "replies srv w (c # cs) = srv w c # replies srv (w @ [c]) cs"

section \<open>DistributedMemcachedClient\<close>

record 'c memcached_client =
  c_ring :: "'c hash_ring"
  replication_factor :: int
  key_map :: "(string, string list) dict"

definition str_int :: "int \<Rightarrow> string" where
  "str_int i = (if i < 0 then ''-'' @ str_nat (nat (- i)) else str_nat (nat i))"

text \<open>
  \<^verbatim>\<open>__init__\<close>: \<open>connect\<close> stands for \<^verbatim>\<open>base.Client((host, port), ...)\<close>, which
  only builds the handle.
\<close>

definition new_client ::
  "(string \<Rightarrow> int) \<Rightarrow> (string \<Rightarrow> int \<Rightarrow> 'c) \<Rightarrow> (string \<times> int) list \<Rightarrow> int \<Rightarrow> int
     \<Rightarrow> 'c memcached_client" where
  "new_client H connect addrs v rf =
     \<lparr>c_ring = fold (\<lambda>(host, port) r. add_node H r (host @ '':'' @ str_int port) (connect host port))
                    addrs (init_ring v),
      replication_factor = max 1 rf,
      key_map = []\<rparr>"

text \<open>
  The \<^verbatim>\<open>for\<close> loop of \<^verbatim>\<open>set\<close> over the remaining nodes, with its state
  \<open>(results, success, stored_nodes)\<close> and the history.
\<close>

fun set_loop ::
  "'c server \<Rightarrow> string \<Rightarrow> pyval \<Rightarrow> int \<Rightarrow> (string \<times> 'c) list
     \<Rightarrow> (string, bool) dict \<times> bool \<times> string list \<times> 'c call list
     \<Rightarrow> (string, bool) dict \<times> bool \<times> string list \<times> 'c call list" where
  "set_loop srv key val ttl [] st = st"
| "set_loop srv key val ttl ((node_name, client) # rest) (results, success, stored_nodes, w) =
     (case srv w (Set_call client key val ttl) of
        Returns _ \<Rightarrow>
          set_loop srv key val ttl rest
            (AList.update node_name True results, True, stored_nodes @ [node_name],
             w @ [Set_call client key val ttl])
      | Raises \<Rightarrow>
          set_loop srv key val ttl rest
            (AList.update node_name False results, success, stored_nodes,
             w @ [Set_call client key val ttl]))"

definition client_set ::
  "(string \<Rightarrow> int) \<Rightarrow> 'c server \<Rightarrow> 'c memcached_client \<Rightarrow> string \<Rightarrow> pyval \<Rightarrow> int \<Rightarrow> 'c call list
     \<Rightarrow> (py_error + (bool \<times> (string, bool) dict) \<times> 'c memcached_client \<times> 'c call list) option" where
  "client_set H srv cl key val ttl w =
     (case get_nodes_for_key H (c_ring cl) key (replication_factor cl) of
        None \<Rightarrow> None
      | Some (Inl e) \<Rightarrow> Some (Inl e)
      | Some (Inr ns) \<Rightarrow>
          (case set_loop srv key val ttl ns ([], False, [], w) of
             (results, success, stored_nodes, w') \<Rightarrow>
               Some (Inr ((success, results),
                          cl\<lparr>key_map := AList.update key stored_nodes (key_map cl)\<rparr>,
                          w'))))"

text \<open>
  \<^verbatim>\<open>get\<close>: the inner \<^verbatim>\<open>try\<close> turns a failed \<^verbatim>\<open>decode\<close> into the raw
  bytes, the outer one turns a raising node into the next turn of the loop.
\<close>

definition decode_value :: "pyval \<Rightarrow> pyval" where
  "decode_value v =
     (case v of
        PBytes b \<Rightarrow> (case utf8_decode b of Some s \<Rightarrow> PStr s | None \<Rightarrow> v)
      | _ \<Rightarrow> v)"

fun get_loop :: "'c server \<Rightarrow> string \<Rightarrow> (string \<times> 'c) list \<Rightarrow> 'c call list \<Rightarrow> pyval \<times> 'c call list" where
  "get_loop srv key [] w = (PNone, w)"
| "get_loop srv key ((node_name, client) # rest) w =
     (case srv w (Get_call client key) of
        Returns v \<Rightarrow>
          if v \<noteq> PNone then (decode_value v, w @ [Get_call client key])
          else get_loop srv key rest (w @ [Get_call client key])
      | Raises \<Rightarrow> get_loop srv key rest (w @ [Get_call client key]))"

definition client_get ::
  "(string \<Rightarrow> int) \<Rightarrow> 'c server \<Rightarrow> 'c memcached_client \<Rightarrow> string \<Rightarrow> 'c call list
     \<Rightarrow> (py_error + pyval \<times> 'c call list) option" where
  "client_get H srv cl key w =
     (case get_nodes_for_key H (c_ring cl) key (replication_factor cl) of
        None \<Rightarrow> None
      | Some (Inl e) \<Rightarrow> Some (Inl e)
      | Some (Inr ns) \<Rightarrow> Some (Inr (get_loop srv key ns w)))"

text \<open>
  \<^verbatim>\<open>_hash\<close>, \<^verbatim>\<open>get_nodes_for_key\<close> and \<^verbatim>\<open>get\<close> on a key that is any
  \<^verbatim>\<open>str\<close>, given by its code points. \<^verbatim>\<open>get_nodes_for_key\<close> tests the ring
  first and hashes the key after, and \<^verbatim>\<open>get\<close> calls it outside its
  \<^verbatim>\<open>try\<close>. The nodes are handed the key by its bytes, \<open>wire_key\<close>; a key
  without an encoding reaches no node, since the lookup returns for it only on an empty
  ring, with the empty list.
\<close>

definition hash_str :: "(string \<Rightarrow> int) \<Rightarrow> unicode \<Rightarrow> py_error + int" where
  "hash_str H key = (case utf8_encode key of Inl e \<Rightarrow> Inl e | Inr bs \<Rightarrow> Inr (H bs))"

definition get_nodes_for_key_str ::
  "(string \<Rightarrow> int) \<Rightarrow> 'c hash_ring \<Rightarrow> unicode \<Rightarrow> int \<Rightarrow> (py_error + (string \<times> 'c) list) option" where
  "get_nodes_for_key_str H r key cnt =
     (if ring r = [] then Some (Inr [])
      else
        (case hash_str H key of
           Inl e \<Rightarrow> Some (Inl e)
         | Inr h \<Rightarrow> (let idx = bisect (ring r) h in nodes_walk r cnt idx [] {})))"

definition wire_key :: "unicode \<Rightarrow> string" where
  "wire_key key = (case utf8_encode key of Inl e \<Rightarrow> [] | Inr bs \<Rightarrow> bs)"

definition client_get_str ::
  "(string \<Rightarrow> int) \<Rightarrow> 'c server \<Rightarrow> 'c memcached_client \<Rightarrow> unicode \<Rightarrow> 'c call list
     \<Rightarrow> (py_error + pyval \<times> 'c call list) option" where
  "client_get_str H srv cl key w =
     (case get_nodes_for_key_str H (c_ring cl) key (replication_factor cl) of
        None \<Rightarrow> None
      | Some (Inl e) \<Rightarrow> Some (Inl e)
      | Some (Inr ns) \<Rightarrow> Some (Inr (get_loop srv (wire_key key) ns w)))"

fun delete_loop ::
  "'c server \<Rightarrow> string \<Rightarrow> (string \<times> 'c) list \<Rightarrow> (string, bool) dict \<times> 'c call list
     \<Rightarrow> (string, bool) dict \<times> 'c call list" where
  "delete_loop srv key [] st = st"
| "delete_loop srv key ((node_name, client) # rest) (results, w) =
     (case srv w (Delete_call client key) of
        Returns _ \<Rightarrow>
          delete_loop srv key rest (AList.update node_name True results, w @ [Delete_call client key])
      | Raises \<Rightarrow>
          delete_loop srv key rest (AList.update node_name False results, w @ [Delete_call client key]))"

definition client_delete ::
  "(string \<Rightarrow> int) \<Rightarrow> 'c server \<Rightarrow> 'c memcached_client \<Rightarrow> string \<Rightarrow> 'c call list
     \<Rightarrow> (py_error + (string, bool) dict \<times> 'c memcached_client \<times> 'c call list) option" where
  "client_delete H srv cl key w =
     (case get_nodes_for_key H (c_ring cl) key (replication_factor cl) of
        None \<Rightarrow> None
      | Some (Inl e) \<Rightarrow> Some (Inl e)
      | Some (Inr ns) \<Rightarrow>
          (case delete_loop srv key ns ([], w) of
             (results, w') \<Rightarrow>
               Some (Inr (results,
                          cl\<lparr>key_map := (if map_of (key_map cl) key \<noteq> None
                                          then AList.delete key (key_map cl) else key_map cl)\<rparr>,
                          w'))))"

section \<open>Ring states and their invariants\<close>

text \<open>
  The hash values of the points that \<^verbatim>\<open>add_node\<close> inserts for a node, in the order
  of insertion.
\<close>

definition node_points :: "(string \<Rightarrow> int) \<Rightarrow> 'c hash_ring \<Rightarrow> string \<Rightarrow> int list" where
  "node_points H r node_name = map (\<lambda>i. H (point_label node_name i)) [0 ..< nat (replicas r)]"

text \<open>A sequence of calls of the two mutators, run from a given ring.\<close>

datatype 'c ring_op = Add_node string 'c | Remove_node string

fun apply_op :: "(string \<Rightarrow> int) \<Rightarrow> 'c ring_op \<Rightarrow> 'c hash_ring \<Rightarrow> 'c hash_ring" where
  "apply_op H (Add_node node_name client) r = add_node H r node_name client"
| "apply_op H (Remove_node node_name) r = remove_node r node_name"

definition run_ops :: "(string \<Rightarrow> int) \<Rightarrow> 'c ring_op list \<Rightarrow> 'c hash_ring \<Rightarrow> 'c hash_ring" where
  "run_ops H ops r = fold (apply_op H) ops r"

text \<open>
  The points of a node are fresh in a ring when they are pairwise distinct and none of
  them is in the ring already. A sequence of calls is free of collisions when every
  \<^verbatim>\<open>add_node\<close> in it that does insert points (the node is not registered yet)
  inserts fresh ones.
\<close>

definition fresh_points :: "(string \<Rightarrow> int) \<Rightarrow> 'c hash_ring \<Rightarrow> string \<Rightarrow> bool" where
  "fresh_points H r node_name \<longleftrightarrow>
     distinct (node_points H r node_name) \<and>
     (\<forall>h \<in> set (node_points H r node_name). h \<notin> set (ring r))"

fun collision_free :: "(string \<Rightarrow> int) \<Rightarrow> 'c ring_op list \<Rightarrow> 'c hash_ring \<Rightarrow> bool" where
  "collision_free H [] r = True"
| "collision_free H (Add_node node_name client # ops) r =
     ((map_of (nodes r) node_name \<noteq> None \<or> fresh_points H r node_name) \<and>
      collision_free H ops (add_node H r node_name client))"
| "collision_free H (Remove_node node_name # ops) r =
     collision_free H ops (remove_node r node_name)"

text \<open>
  What holds of every ring, whatever the hash: the points are in ascending order, the
  two dictionaries have each key once, every key of \<open>hash2node\<close> is a point of the
  ring and every owner is a registered node.
\<close>

definition ring_wf :: "'c hash_ring \<Rightarrow> bool" where
  "ring_wf r \<longleftrightarrow>
     sorted (ring r) \<and> distinct (map fst (hash2node r)) \<and> distinct (map fst (nodes r)) \<and>
     fst ` set (hash2node r) \<subseteq> set (ring r) \<and>
     snd ` set (hash2node r) \<subseteq> fst ` set (nodes r)"

text \<open>What holds in addition when no two points collided: no point is in the ring twice,
  and every point has an owner.\<close>

definition ring_strict :: "'c hash_ring \<Rightarrow> bool" where
  "ring_strict r \<longleftrightarrow>
     ring_wf r \<and> distinct (ring r) \<and> set (ring r) = fst ` set (hash2node r)"

text \<open>And when, moreover, every node came with at least one point: every registered node
  owns a point.\<close>

definition ring_covered :: "'c hash_ring \<Rightarrow> bool" where
  "ring_covered r \<longleftrightarrow> ring_strict r \<and> fst ` set (nodes r) \<subseteq> snd ` set (hash2node r)"

section \<open>Concrete inputs\<close>

text \<open>
  A hash to run the definitions on: the string read as a number in base 256. On the
  labels used below it has no collisions.
\<close>

definition toy_hash :: "string \<Rightarrow> int" where
  "toy_hash s = fold (\<lambda>c h. h * 256 + of_char c) s 0"

text \<open>
  A client over the two nodes \<^verbatim>\<open>a:1\<close> and \<^verbatim>\<open>b:2\<close>, two points per node, two
  replicas per key; the handle of a node is its port.
\<close>

definition client_ab :: "int memcached_client" where
  "client_ab = new_client toy_hash (\<lambda>host port. port) [(''a'', 1), (''b'', 2)] 2 2"

text \<open>Nodes of which the one with handle 1 raises on every call; the other holds \<^verbatim>\<open>b"v"\<close>.\<close>

definition srv_a_down :: "int server" where
  "srv_a_down w c =
     (case c of
        Set_call h k v t \<Rightarrow> if h = 1 then Raises else Returns (PBool True)
      | Get_call h k \<Rightarrow> if h = 1 then Raises else Returns (PBytes [0x76])
      | Delete_call h k \<Rightarrow> if h = 1 then Raises else Returns (PBool True))"

text \<open>The calls that build the ring of \<open>client_ab\<close>.\<close>

definition ops_ab :: "int ring_op list" where
  "ops_ab = [Add_node ''a:1'' 1, Add_node ''b:2'' 2]"

text \<open>A hash under which all labels collide.\<close>

definition const_hash :: "string \<Rightarrow> int" where
  "const_hash s = 0"

text \<open>Nodes that raise on every call.\<close>

definition srv_all_down :: "int server" where
  "srv_all_down w c = Raises"

text \<open>
  Nodes that answer \<^verbatim>\<open>get\<close> only: the one with handle 1 holds the byte
  \<^verbatim>\<open>0xFF\<close>, which is not UTF-8 (respectively holds nothing), the other holds the
  integer 7.
\<close>

definition srv_a_junk :: "int server" where
  "srv_a_junk w c =
     (case c of
        Get_call h k \<Rightarrow> if h = 1 then Returns (PBytes [0xFF]) else Returns (PInt 7)
      | _ \<Rightarrow> Raises)"

definition srv_a_none :: "int server" where
  "srv_a_none w c =
     (case c of
        Get_call h k \<Rightarrow> if h = 1 then Returns PNone else Returns (PInt 7)
      | _ \<Rightarrow> Raises)"

text \<open>The client after two keys were written through it.\<close>

definition client_ab_kx :: "int memcached_client" where
  "client_ab_kx = client_ab\<lparr>key_map := [(''k'', [''b:2'']), (''x'', [''a:1''])]\<rparr>"

section \<open>Binary search on a sorted list\<close>

lemma bisect_right_loop_stop: "\<not> lo < hi \<Longrightarrow> bisect_right_loop a x lo hi = lo"
  by (subst bisect_right_loop.simps) simp

lemma bisect_right_loop_down:
  "lo < hi \<Longrightarrow> x < a ! ((lo + hi) div 2) \<Longrightarrow>
     bisect_right_loop a x lo hi = bisect_right_loop a x lo ((lo + hi) div 2)"
  by (subst bisect_right_loop.simps) (simp add: Let_def)

lemma bisect_right_loop_up:
  "lo < hi \<Longrightarrow> \<not> x < a ! ((lo + hi) div 2) \<Longrightarrow>
     bisect_right_loop a x lo hi = bisect_right_loop a x ((lo + hi) div 2 + 1) hi"
  by (subst bisect_right_loop.simps) (simp add: Let_def)

lemma bisect_left_loop_stop: "\<not> lo < hi \<Longrightarrow> bisect_left_loop a x lo hi = lo"
  by (subst bisect_left_loop.simps) simp

lemma bisect_left_loop_up:
  "lo < hi \<Longrightarrow> a ! ((lo + hi) div 2) < x \<Longrightarrow>
     bisect_left_loop a x lo hi = bisect_left_loop a x ((lo + hi) div 2 + 1) hi"
  by (subst bisect_left_loop.simps) (simp add: Let_def)

lemma bisect_left_loop_down:
  "lo < hi \<Longrightarrow> \<not> a ! ((lo + hi) div 2) < x \<Longrightarrow>
     bisect_left_loop a x lo hi = bisect_left_loop a x lo ((lo + hi) div 2)"
  by (subst bisect_left_loop.simps) (simp add: Let_def)

lemma bisect_right_loop_bounds:
  "lo \<le> hi \<Longrightarrow> lo \<le> bisect_right_loop a x lo hi \<and> bisect_right_loop a x lo hi \<le> hi"
proof (induction a x lo hi rule: bisect_right_loop.induct)
  case (1 a x lo hi)
  show ?case
  proof (cases "lo < hi")
    case False
    with "1.prems" show ?thesis
      by (simp add: bisect_right_loop_stop bisect_left_loop_stop)
  next
    case True
    define mid where "mid = (lo + hi) div 2"
    have m: "lo \<le> mid" "mid < hi" using True by (auto simp: mid_def)
    show ?thesis
    proof (cases "x < a ! mid")
      case xlt: True
      from "1.IH"(1)[OF True mid_def xlt] m
      have "lo \<le> bisect_right_loop a x lo mid \<and> bisect_right_loop a x lo mid \<le> mid" by simp
      with True xlt m show ?thesis by (simp add: bisect_right_loop_down mid_def)
    next
      case xge: False
      from "1.IH"(2)[OF True mid_def xge] m
      have "mid + 1 \<le> bisect_right_loop a x (mid + 1) hi \<and> bisect_right_loop a x (mid + 1) hi \<le> hi" by simp
      with True xge m show ?thesis by (simp add: bisect_right_loop_up mid_def)
    qed
  qed
qed

lemma bisect_le_length: "bisect a x \<le> length a"
  using bisect_right_loop_bounds[of 0 "length a" a x] by (simp add: bisect_def)

lemma bisect_right_loop_sorted:
  "sorted a \<Longrightarrow> lo \<le> hi \<Longrightarrow> hi \<le> length a \<Longrightarrow>
   (\<forall>k < lo. a ! k \<le> x) \<Longrightarrow> (\<forall>k. hi \<le> k \<and> k < length a \<longrightarrow> x < a ! k) \<Longrightarrow>
   (\<forall>k < bisect_right_loop a x lo hi. a ! k \<le> x) \<and>
   (\<forall>k. bisect_right_loop a x lo hi \<le> k \<and> k < length a \<longrightarrow> x < a ! k)"
proof (induction a x lo hi rule: bisect_right_loop.induct)
  case (1 a x lo hi)
  show ?case
  proof (cases "lo < hi")
    case False
    with "1.prems" show ?thesis
      by (simp add: bisect_right_loop_stop bisect_left_loop_stop)
  next
    case True
    define mid where "mid = (lo + hi) div 2"
    have m: "lo \<le> mid" "mid < hi" using True by (auto simp: mid_def)
    show ?thesis
    proof (cases "x < a ! mid")
      case xlt: True
      have up: "\<forall>k. mid \<le> k \<and> k < length a \<longrightarrow> x < a ! k"
      proof (intro allI impI)
        fix k assume k: "mid \<le> k \<and> k < length a"
        with \<open>sorted a\<close> have "a ! mid \<le> a ! k" by (simp add: sorted_nth_mono)
        with xlt show "x < a ! k" by simp
      qed
      from "1.IH"(1)[OF True mid_def xlt "1.prems"(1) m(1) _ "1.prems"(4) up] m "1.prems"(3)
      have "(\<forall>k < bisect_right_loop a x lo mid. a ! k \<le> x) \<and>
            (\<forall>k. bisect_right_loop a x lo mid \<le> k \<and> k < length a \<longrightarrow> x < a ! k)" by simp
      with True xlt show ?thesis by (simp add: bisect_right_loop_down mid_def)
    next
      case xge: False
      have low: "\<forall>k < mid + 1. a ! k \<le> x"
      proof (intro allI impI)
        fix k assume k: "k < mid + 1"
        with \<open>sorted a\<close> m "1.prems"(3) have "a ! k \<le> a ! mid" by (simp add: sorted_nth_mono)
        with xge show "a ! k \<le> x" by simp
      qed
      from "1.IH"(2)[OF True mid_def xge "1.prems"(1) _ "1.prems"(3) low "1.prems"(5)] m
      have "(\<forall>k < bisect_right_loop a x (mid + 1) hi. a ! k \<le> x) \<and>
            (\<forall>k. bisect_right_loop a x (mid + 1) hi \<le> k \<and> k < length a \<longrightarrow> x < a ! k)" by simp
      with True xge show ?thesis by (simp add: bisect_right_loop_up mid_def)
    qed
  qed
qed

lemma bisect_sorted:
  assumes "sorted a"
  shows "(\<forall>k < bisect a x. a ! k \<le> x) \<and> (\<forall>k. bisect a x \<le> k \<and> k < length a \<longrightarrow> x < a ! k)"
  using bisect_right_loop_sorted[OF assms, of 0 "length a" x] by (simp add: bisect_def)

lemma bisect_left_loop_bounds:
  "lo \<le> hi \<Longrightarrow> lo \<le> bisect_left_loop a x lo hi \<and> bisect_left_loop a x lo hi \<le> hi"
proof (induction a x lo hi rule: bisect_left_loop.induct)
  case (1 a x lo hi)
  show ?case
  proof (cases "lo < hi")
    case False
    with "1.prems" show ?thesis
      by (simp add: bisect_right_loop_stop bisect_left_loop_stop)
  next
    case True
    define mid where "mid = (lo + hi) div 2"
    have m: "lo \<le> mid" "mid < hi" using True by (auto simp: mid_def)
    show ?thesis
    proof (cases "a ! mid < x")
      case lt: True
      from "1.IH"(1)[OF True mid_def lt] m
      have "mid + 1 \<le> bisect_left_loop a x (mid + 1) hi \<and> bisect_left_loop a x (mid + 1) hi \<le> hi" by simp
      with True lt m show ?thesis by (simp add: bisect_left_loop_up mid_def)
    next
      case ge: False
      from "1.IH"(2)[OF True mid_def ge] m
      have "lo \<le> bisect_left_loop a x lo mid \<and> bisect_left_loop a x lo mid \<le> mid" by simp
      with True ge m show ?thesis by (simp add: bisect_left_loop_down mid_def)
    qed
  qed
qed

lemma bisect_left_loop_sorted:
  "sorted a \<Longrightarrow> lo \<le> hi \<Longrightarrow> hi \<le> length a \<Longrightarrow>
   (\<forall>k < lo. a ! k < x) \<Longrightarrow> (\<forall>k. hi \<le> k \<and> k < length a \<longrightarrow> x \<le> a ! k) \<Longrightarrow>
   (\<forall>k < bisect_left_loop a x lo hi. a ! k < x) \<and>
   (\<forall>k. bisect_left_loop a x lo hi \<le> k \<and> k < length a \<longrightarrow> x \<le> a ! k)"
proof (induction a x lo hi rule: bisect_left_loop.induct)
  case (1 a x lo hi)
  show ?case
  proof (cases "lo < hi")
    case False
    with "1.prems" show ?thesis
      by (simp add: bisect_right_loop_stop bisect_left_loop_stop)
  next
    case True
    define mid where "mid = (lo + hi) div 2"
    have m: "lo \<le> mid" "mid < hi" using True by (auto simp: mid_def)
    show ?thesis
    proof (cases "a ! mid < x")
      case lt: True
      have low: "\<forall>k < mid + 1. a ! k < x"
      proof (intro allI impI)
        fix k assume k: "k < mid + 1"
        with \<open>sorted a\<close> m "1.prems"(3) have "a ! k \<le> a ! mid" by (simp add: sorted_nth_mono)
        with lt show "a ! k < x" by simp
      qed
      from "1.IH"(1)[OF True mid_def lt "1.prems"(1) _ "1.prems"(3) low "1.prems"(5)] m
      have "(\<forall>k < bisect_left_loop a x (mid + 1) hi. a ! k < x) \<and>
            (\<forall>k. bisect_left_loop a x (mid + 1) hi \<le> k \<and> k < length a \<longrightarrow> x \<le> a ! k)" by simp
      with True lt show ?thesis by (simp add: bisect_left_loop_up mid_def)
    next
      case ge: False
      have up: "\<forall>k. mid \<le> k \<and> k < length a \<longrightarrow> x \<le> a ! k"
      proof (intro allI impI)
        fix k assume k: "mid \<le> k \<and> k < length a"
        with \<open>sorted a\<close> have "a ! mid \<le> a ! k" by (simp add: sorted_nth_mono)
        with ge show "x \<le> a ! k" by simp
      qed
      from "1.IH"(2)[OF True mid_def ge "1.prems"(1) m(1) _ "1.prems"(4) up] m "1.prems"(3)
      have "(\<forall>k < bisect_left_loop a x lo mid. a ! k < x) \<and>
            (\<forall>k. bisect_left_loop a x lo mid \<le> k \<and> k < length a \<longrightarrow> x \<le> a ! k)" by simp
      with True ge show ?thesis by (simp add: bisect_left_loop_down mid_def)
    qed
  qed
qed

lemma bisect_left_sorted:
  assumes "sorted a"
  shows "bisect_left a x \<le> length a \<and> (\<forall>k < bisect_left a x. a ! k < x) \<and>
         (\<forall>k. bisect_left a x \<le> k \<and> k < length a \<longrightarrow> x \<le> a ! k)"
  using bisect_left_loop_sorted[OF assms, of 0 "length a" x] bisect_left_loop_bounds[of 0 "length a" a x]
  by (simp add: bisect_left_def)

section \<open>The replica walk: what a returned list satisfies\<close>

lemma nodes_walk_partial_aux:
  assumes "nodes_walk r cnt i found used = Some y"
  shows "used = fst ` set found \<longrightarrow> distinct (map fst found) \<longrightarrow>
   (\<forall>(n, c) \<in> set found. map_of (nodes r) n = Some c) \<longrightarrow>
   (\<forall>res. y = Inr res \<longrightarrow>
   distinct (map fst res) \<and> (\<forall>(n, c) \<in> set res. map_of (nodes r) n = Some c) \<and>
   int (length res) \<le> max cnt (int (length found)))"
proof (rule nodes_walk.raw_induct[OF _ assms], goal_cases)
  case (1 walk r cnt i found used y)
  note IH = 1(1) and body = 1(2)
  show ?case
  proof (intro impI allI)
    fix res
    assume pu: "used = fst ` set found" and pd: "distinct (map fst found)"
      and pm: "\<forall>(n, c) \<in> set found. map_of (nodes r) n = Some c" and py: "y = Inr res"
    show "distinct (map fst res) \<and> (\<forall>(n, c) \<in> set res. map_of (nodes r) n = Some c) \<and>
       int (length res) \<le> max cnt (int (length found))"
    proof (cases "int (length found) < cnt \<and> 0 < length (ring r)")
      case False
      with body pu pd pm py show ?thesis by (auto simp: Let_def)
    next
      case True
      define j where "j = (if i = length (ring r) then 0 else i)"
      show ?thesis
      proof (cases "j < length (ring r)")
        case False
        with True body py show ?thesis by (auto simp: Let_def j_def split: if_splits)
      next
        case jlt: True
        show ?thesis
        proof (cases "map_of (hash2node r) (ring r ! j)")
          case None
          with True jlt body py show ?thesis by (auto simp: Let_def j_def split: if_splits)
        next
          case (Some name)
          define found' where "found' =
            (if name \<notin> used then (case map_of (nodes r) name of None \<Rightarrow> found
               | Some client \<Rightarrow> found @ [(name, client)]) else found)"
          define used' where "used' =
            (if name \<notin> used \<and> map_of (nodes r) name \<noteq> None then insert name used else used)"
          have eq: "(if card used' = length (nodes r) then Some (Inr found')
                     else walk r cnt (j + 1) found' used') = Some y"
            using body True jlt Some unfolding j_def found'_def used'_def
            by (simp add: Let_def split del: if_split cong del: if_weak_cong)
          have u: "used' = fst ` set found'"
            using pu by (auto simp: used'_def found'_def split: option.splits)
          have d: "distinct (map fst found')"
            using pu pd by (auto simp: found'_def split: option.splits)
          have m: "\<forall>(n, c) \<in> set found'. map_of (nodes r) n = Some c"
            using pm by (auto simp: found'_def split: option.splits)
          have l: "int (length found') \<le> cnt"
            using True by (auto simp: found'_def split: option.splits)
          show ?thesis
          proof (cases "card used' = length (nodes r)")
            case True
            with eq py have "res = found'" by simp
            with d m l show ?thesis by simp
          next
            case False
            with eq have "walk r cnt (j + 1) found' used' = Some y" by simp
            from IH[OF this] u d m py l True show ?thesis by simp
          qed
        qed
      qed
    qed
  qed
qed

section \<open>The client's iterations over the replica set\<close>


lemma set_loop_history:
  "snd (snd (snd (set_loop srv key val ttl ns (res, suc, st, w)))) =
     w @ map (\<lambda>(n, c). Set_call c key val ttl) ns"
  by (induction ns arbitrary: res suc st w) (auto split: reply.splits)

lemma set_loop_results_other:
  "k \<notin> fst ` set ns \<Longrightarrow>
     map_of (fst (set_loop srv key val ttl ns (res, suc, st, w))) k = map_of res k"
  by (induction ns arbitrary: res suc st w) (auto split: reply.splits simp: update_conv')

lemma set_loop_results_keys:
  "fst ` set (fst (set_loop srv key val ttl ns (res, suc, st, w))) = fst ` set res \<union> fst ` set ns"
proof (induction ns arbitrary: res suc st w)
  case Nil
  then show ?case by simp
next
  case (Cons p ns)
  obtain n c where p: "p = (n, c)" by (cases p)
  show ?case
    by (cases "srv w (Set_call c key val ttl)") (simp_all add: p Cons.IH dom_update Un_assoc)
qed

lemma set_loop_results_nth:
  "distinct (map fst ns) \<Longrightarrow> i < length ns \<Longrightarrow>
     map_of (fst (set_loop srv key val ttl ns (res, suc, st, w))) (fst (ns ! i)) =
       Some (replies srv w (map (\<lambda>(n, c). Set_call c key val ttl) ns) ! i \<noteq> Raises)"
proof (induction ns arbitrary: res suc st w i)
  case Nil
  then show ?case by simp
next
  case (Cons p ns)
  obtain n c where p: "p = (n, c)" by (cases p)
  show ?case
  proof (cases i)
    case 0
    with Cons.prems p show ?thesis
      by (auto split: reply.splits simp: set_loop_results_other update_conv')
  next
    case (Suc j)
    with Cons.prems p Cons.IH[of j] show ?thesis
      by (auto split: reply.splits)
  qed
qed

lemma set_loop_success:
  "fst (snd (set_loop srv key val ttl ns (res, suc, st, w))) =
     (suc \<or> (\<exists>i < length ns. replies srv w (map (\<lambda>(n, c). Set_call c key val ttl) ns) ! i \<noteq> Raises))"
proof (induction ns arbitrary: res suc st w)
  case Nil
  then show ?case by simp
next
  case (Cons p ns)
  obtain n c where p: "p = (n, c)" by (cases p)
  have ex: "\<And>P. (\<exists>i < Suc (length ns). P i) = (P 0 \<or> (\<exists>i < length ns. P (Suc i)))"
    by (metis less_Suc_eq_0_disj)
  show ?case
    by (cases "srv w (Set_call c key val ttl)") (simp_all add: p Cons.IH ex)
qed

lemma set_loop_stored:
  "fst (snd (snd (set_loop srv key val ttl ns (res, suc, st, w)))) =
     st @ map fst (filter (\<lambda>(n, ok). ok)
            (zip (map fst ns) (map (\<lambda>r. r \<noteq> Raises) (replies srv w (map (\<lambda>(n, c). Set_call c key val ttl) ns)))))"
  by (induction ns arbitrary: res suc st w) (auto split: reply.splits)

lemma lookup_ab: "get_nodes_for_key toy_hash (c_ring client_ab) ''k'' (replication_factor client_ab) = Some (Inr [(''a:1'', 1), (''b:2'', 2)])"
  by code_simp

lemma get_nodes_for_key_distinct:
  assumes "get_nodes_for_key H r key cnt = Some (Inr ns)"
  shows "distinct (map fst ns) \<and> (\<forall>(n, c) \<in> set ns. map_of (nodes r) n = Some c)"
proof (cases "ring r = []")
  case True
  with assms show ?thesis by (simp add: get_nodes_for_key_def)
next
  case False
  with assms have "nodes_walk r cnt (bisect (ring r) (H key)) [] {} = Some (Inr ns)"
    by (simp add: get_nodes_for_key_def Let_def)
  from nodes_walk_partial_aux[OF this] show ?thesis by simp
qed

lemma replies_length [simp]: "length (replies srv w cs) = length cs"
  by (induction cs arbitrary: w) auto

lemma replies_nth: "i < length cs \<Longrightarrow> replies srv w cs ! i = srv (w @ take i cs) (cs ! i)"
proof (induction cs arbitrary: w i)
  case Nil
  then show ?case by simp
next
  case (Cons c cs)
  then show ?case by (cases i) auto
qed

lemma get_loop_miss:
  "(\<forall>i < length ns. replies srv w (map (\<lambda>(n, c). Get_call c key) ns) ! i = Raises \<or>
                     replies srv w (map (\<lambda>(n, c). Get_call c key) ns) ! i = Returns PNone) \<Longrightarrow>
   get_loop srv key ns w = (PNone, w @ map (\<lambda>(n, c). Get_call c key) ns)"
proof (induction ns arbitrary: w)
  case Nil
  then show ?case by simp
next
  case (Cons p ns)
  obtain n c where p: "p = (n, c)" by (cases p)
  from Cons.prems have h0: "srv w (Get_call c key) = Raises \<or> srv w (Get_call c key) = Returns PNone"
    by (auto simp: p)
  have "\<forall>i < length ns. replies srv (w @ [Get_call c key]) (map (\<lambda>(n, c). Get_call c key) ns) ! i = Raises \<or>
         replies srv (w @ [Get_call c key]) (map (\<lambda>(n, c). Get_call c key) ns) ! i = Returns PNone"
  proof (intro allI impI)
    fix i assume "i < length ns"
    with Cons.prems[rule_format, of "Suc i"] show "replies srv (w @ [Get_call c key]) (map (\<lambda>(n, c). Get_call c key) ns) ! i = Raises \<or>
         replies srv (w @ [Get_call c key]) (map (\<lambda>(n, c). Get_call c key) ns) ! i = Returns PNone"
      by (simp add: p)
  qed
  from Cons.IH[OF this] h0 show ?case by (auto simp: p)
qed

lemma get_loop_hit:
  "j < length ns \<Longrightarrow>
   replies srv w (map (\<lambda>(n, c). Get_call c key) ns) ! j = Returns v \<Longrightarrow> v \<noteq> PNone \<Longrightarrow>
   (\<forall>i < j. replies srv w (map (\<lambda>(n, c). Get_call c key) ns) ! i = Raises \<or>
            replies srv w (map (\<lambda>(n, c). Get_call c key) ns) ! i = Returns PNone) \<Longrightarrow>
   get_loop srv key ns w = (decode_value v, w @ take (Suc j) (map (\<lambda>(n, c). Get_call c key) ns))"
proof (induction ns arbitrary: w j)
  case Nil
  then show ?case by simp
next
  case (Cons p ns)
  obtain n c where p: "p = (n, c)" by (cases p)
  show ?case
  proof (cases j)
    case 0
    with Cons.prems show ?thesis by (simp add: p)
  next
    case (Suc k)
    from Cons.prems(4)[rule_format, of 0] Suc
    have h0: "srv w (Get_call c key) = Raises \<or> srv w (Get_call c key) = Returns PNone"
      by (simp add: p)
    have k: "k < length ns" using Cons.prems(1) Suc by simp
    have rk: "replies srv (w @ [Get_call c key]) (map (\<lambda>(n, c). Get_call c key) ns) ! k = Returns v"
      using Cons.prems(2) Suc by (simp add: p)
    have before: "\<forall>i < k. replies srv (w @ [Get_call c key]) (map (\<lambda>(n, c). Get_call c key) ns) ! i = Raises \<or>
         replies srv (w @ [Get_call c key]) (map (\<lambda>(n, c). Get_call c key) ns) ! i = Returns PNone"
    proof (intro allI impI)
      fix i assume "i < k"
      with Cons.prems(4)[rule_format, of "Suc i"] Suc
      show "replies srv (w @ [Get_call c key]) (map (\<lambda>(n, c). Get_call c key) ns) ! i = Raises \<or>
         replies srv (w @ [Get_call c key]) (map (\<lambda>(n, c). Get_call c key) ns) ! i = Returns PNone"
        by (simp add: p)
    qed
    from Cons.IH[OF k rk Cons.prems(3) before] h0 Suc show ?thesis by (auto simp: p)
  qed
qed

lemma delete_loop_history:
  "snd (delete_loop srv key ns (res, w)) = w @ map (\<lambda>(n, c). Delete_call c key) ns"
  by (induction ns arbitrary: res w) (auto split: reply.splits)

lemma delete_loop_results_other:
  "k \<notin> fst ` set ns \<Longrightarrow> map_of (fst (delete_loop srv key ns (res, w))) k = map_of res k"
  by (induction ns arbitrary: res w) (auto split: reply.splits simp: update_conv')

lemma delete_loop_results_keys:
  "fst ` set (fst (delete_loop srv key ns (res, w))) = fst ` set res \<union> fst ` set ns"
proof (induction ns arbitrary: res w)
  case Nil
  then show ?case by simp
next
  case (Cons p ns)
  obtain n c where p: "p = (n, c)" by (cases p)
  show ?case
    by (cases "srv w (Delete_call c key)") (simp_all add: p Cons.IH dom_update Un_assoc)
qed

lemma delete_loop_results_nth:
  "distinct (map fst ns) \<Longrightarrow> i < length ns \<Longrightarrow>
     map_of (fst (delete_loop srv key ns (res, w))) (fst (ns ! i)) =
       Some (replies srv w (map (\<lambda>(n, c). Delete_call c key) ns) ! i \<noteq> Raises)"
proof (induction ns arbitrary: res w i)
  case Nil
  then show ?case by simp
next
  case (Cons p ns)
  obtain n c where p: "p = (n, c)" by (cases p)
  show ?case
  proof (cases i)
    case 0
    with Cons.prems p show ?thesis
      by (auto split: reply.splits simp: delete_loop_results_other update_conv')
  next
    case (Suc j)
    with Cons.prems p Cons.IH[of j] show ?thesis
      by (auto split: reply.splits)
  qed
qed

section \<open>Dictionaries, the sorted ring and the two mutators\<close>

subsection \<open>Association lists\<close>

lemma update_fresh: "k \<notin> fst ` set al \<Longrightarrow> AList.update k v al = al @ [(k, v)]"
  by (induction al) auto

lemma delete_absent: "k \<notin> fst ` set al \<Longrightarrow> AList.delete k al = al"
  by (induction al) auto

lemma fold_update_keys:
  "fst ` set (fold (\<lambda>h. AList.update h n) ps al) = fst ` set al \<union> set ps"
  by (induction ps arbitrary: al) (auto simp: dom_update)

lemma fold_update_distinct:
  "distinct (map fst al) \<Longrightarrow> distinct (map fst (fold (\<lambda>h. AList.update h n) ps al))"
  by (induction ps arbitrary: al) (auto simp: distinct_update)

lemma update_values: "snd ` set (AList.update k v al) \<subseteq> insert v (snd ` set al)"
  by (induction al) auto

lemma fold_update_values:
  "snd ` set (fold (\<lambda>h. AList.update h n) ps al) \<subseteq> insert n (snd ` set al)"
proof (induction ps arbitrary: al)
  case Nil
  then show ?case by auto
next
  case (Cons p ps)
  have "snd ` set (fold (\<lambda>h. AList.update h n) ps (AList.update p n al))
          \<subseteq> insert n (snd ` set (AList.update p n al))"
    by (rule Cons.IH)
  also have "\<dots> \<subseteq> insert n (snd ` set al)"
    using update_values[of p n al] by auto
  finally show ?case by simp
qed

lemma fold_update_fresh:
  "distinct ps \<Longrightarrow> set ps \<inter> fst ` set al = {} \<Longrightarrow>
     fold (\<lambda>h. AList.update h n) ps al = al @ map (\<lambda>h. (h, n)) ps"
proof (induction ps arbitrary: al)
  case Nil
  then show ?case by simp
next
  case (Cons p ps)
  have p: "p \<notin> fst ` set al" using Cons.prems by auto
  have "set ps \<inter> fst ` set (al @ [(p, n)]) = {}" using Cons.prems by auto
  with Cons.IH[of "al @ [(p, n)]"] Cons.prems p show ?case
    by (simp add: update_fresh)
qed

lemma fold_update_map_of:
  "map_of (fold (\<lambda>h. AList.update h n) ps al) h =
     (if h \<in> set ps then Some n else map_of al h)"
  by (induction ps arbitrary: al) (auto simp: update_conv')

lemma fold_delete_filter:
  "fold AList.delete hs al = filter (\<lambda>p. fst p \<notin> set hs) al"
proof (induction hs arbitrary: al)
  case Nil
  then show ?case by simp
next
  case (Cons h hs)
  have "AList.delete h al = filter (\<lambda>p. fst p \<noteq> h) al"
    by (induction al) auto
  with Cons.IH[of "AList.delete h al"] show ?case
    by (auto intro: filter_cong)
qed

lemma owned_keys:
  assumes "distinct (map fst al)" and "(k, m) \<in> set al"
  shows "k \<in> set (map fst (filter (\<lambda>(h, n'). n' = n) al)) \<longleftrightarrow> m = n"
proof
  assume "k \<in> set (map fst (filter (\<lambda>(h, n'). n' = n) al))"
  then have "(k, n) \<in> set al" by auto
  with assms show "m = n" by (meson eq_key_imp_eq_value)
next
  assume "m = n"
  with assms(2) show "k \<in> set (map fst (filter (\<lambda>(h, n'). n' = n) al))" by force
qed

lemma delete_owned:
  assumes "distinct (map fst al)"
  shows "fold AList.delete (map fst (filter (\<lambda>(h, n'). n' = n) al)) al =
           filter (\<lambda>(h, n'). n' \<noteq> n) al"
proof -
  have "filter (\<lambda>p. fst p \<notin> set (map fst (filter (\<lambda>(h, n'). n' = n) al))) al =
        filter (\<lambda>(h, n'). n' \<noteq> n) al"
  proof (rule filter_cong[OF refl])
    fix p assume pin: "p \<in> set al"
    obtain k m where p: "p = (k, m)" by (cases p)
    with pin have "(k, m) \<in> set al" by simp
    from owned_keys[OF assms this, of n]
    show "(fst p \<notin> set (map fst (filter (\<lambda>(h, n'). n' = n) al))) = (case p of (h, n') \<Rightarrow> n' \<noteq> n)"
      by (simp add: p)
  qed
  then show ?thesis by (simp add: fold_delete_filter)
qed

subsection \<open>Popping a point from a sorted ring\<close>

lemma remove1_at:
  assumes "i < length a" and "a ! i = h" and "h \<notin> set (take i a)"
  shows "remove1 h a = take i a @ drop (Suc i) a"
proof -
  have "a = take i a @ h # drop (Suc i) a"
    using assms(1,2) id_take_nth_drop[of i a] by simp
  then have "remove1 h a = remove1 h (take i a @ h # drop (Suc i) a)" by simp
  also have "\<dots> = take i a @ drop (Suc i) a"
    using assms(3) by (simp add: remove1_append)
  finally show ?thesis .
qed

lemma ring_pop_sorted:
  assumes "sorted a"
  shows "ring_pop a h = remove1 h a"
proof -
  define idx where "idx = bisect_left a h"
  from bisect_left_sorted[OF assms, of h]
  have le: "idx \<le> length a" and lo: "\<forall>k < idx. a ! k < h"
    and hi: "\<forall>k. idx \<le> k \<and> k < length a \<longrightarrow> h \<le> a ! k"
    by (simp_all add: idx_def)
  have notin: "h \<notin> set (take idx a)"
  proof
    assume "h \<in> set (take idx a)"
    then obtain k where "k < length (take idx a)" "take idx a ! k = h"
      by (auto simp: in_set_conv_nth)
    with lo show False by auto
  qed
  show ?thesis
  proof (cases "idx < length a \<and> a ! idx = h")
    case True
    with remove1_at[of idx a h] notin show ?thesis
      by (simp add: ring_pop_def idx_def[symmetric])
  next
    case False
    have "h \<notin> set a"
    proof
      assume "h \<in> set a"
      then obtain k where k: "k < length a" "a ! k = h" by (auto simp: in_set_conv_nth)
      with lo have "idx \<le> k" by (meson not_less order_less_irrefl)
      with k assms have "a ! idx \<le> h" by (auto simp: sorted_nth_mono)
      moreover from \<open>idx \<le> k\<close> k hi have "h \<le> a ! idx" by auto
      ultimately show False using False \<open>idx \<le> k\<close> k by auto
    qed
    with False show ?thesis
      by (auto simp: ring_pop_def idx_def[symmetric] remove1_idem)
  qed
qed

lemma fold_ring_pop_sorted:
  "sorted a \<Longrightarrow> fold (\<lambda>h a. ring_pop a h) hs a = fold remove1 hs a \<and> sorted (fold remove1 hs a)"
proof (induction hs arbitrary: a)
  case Nil
  then show ?case by simp
next
  case (Cons h hs)
  have "sorted (remove1 h a)" using Cons.prems by (rule sorted_remove1)
  from Cons.IH[OF this] Cons.prems show ?case by (simp add: ring_pop_sorted)
qed

lemma mset_fold_remove1: "mset (fold remove1 hs a) = mset a - mset hs"
  by (induction hs arbitrary: a) (auto simp: diff_diff_add_mset)

lemma set_fold_remove1_distinct:
  "distinct a \<Longrightarrow> set (fold remove1 hs a) = set a - set hs \<and> distinct (fold remove1 hs a)"
proof (induction hs arbitrary: a)
  case Nil
  then show ?case by simp
next
  case (Cons h hs)
  from Cons.IH[of "remove1 h a"] Cons.prems show ?case by auto
qed

lemma set_fold_remove1_keeps:
  "x \<in> set a \<Longrightarrow> x \<notin> set hs \<Longrightarrow> x \<in> set (fold remove1 hs a)"
proof (induction hs arbitrary: a)
  case Nil
  then show ?case by simp
next
  case (Cons h hs)
  from Cons.prems have "x \<in> set (remove1 h a)" by (auto simp: in_set_remove1)
  with Cons.IH[of "remove1 h a"] Cons.prems show ?case by simp
qed

subsection \<open>The two mutators, field by field\<close>

lemma fold_add_point:
  "fold (add_point H n) is r =
     r\<lparr>hash2node := fold (\<lambda>h. AList.update h n) (map (\<lambda>i. H (point_label n i)) is) (hash2node r),
       ring := ring r @ map (\<lambda>i. H (point_label n i)) is\<rparr>"
  by (induction "is" arbitrary: r) (simp_all add: add_point_def Let_def)

lemma add_node_registered: "map_of (nodes r) n \<noteq> None \<Longrightarrow> add_node H r n c = r"
  by (simp add: add_node_def)

lemma add_node_fields:
  assumes "map_of (nodes r) n = None"
  shows "replicas (add_node H r n c) = replicas r"
    and "ring (add_node H r n c) = sort (ring r @ node_points H r n)"
    and "hash2node (add_node H r n c) = fold (\<lambda>h. AList.update h n) (node_points H r n) (hash2node r)"
    and "nodes (add_node H r n c) = nodes r @ [(n, c)]"
proof -
  have k: "n \<notin> fst ` set (nodes r)" using assms by (simp add: map_of_eq_None_iff)
  show "replicas (add_node H r n c) = replicas r"
    using assms by (simp add: add_node_def Let_def fold_add_point)
  show "ring (add_node H r n c) = sort (ring r @ node_points H r n)"
    using assms by (simp add: add_node_def Let_def fold_add_point node_points_def)
  show "hash2node (add_node H r n c) = fold (\<lambda>h. AList.update h n) (node_points H r n) (hash2node r)"
    using assms by (simp add: add_node_def Let_def fold_add_point node_points_def)
  show "nodes (add_node H r n c) = nodes r @ [(n, c)]"
    using assms k by (simp add: add_node_def Let_def fold_add_point update_fresh)
qed

lemma fold_remove_point:
  "fold remove_point hs r =
     r\<lparr>hash2node := fold AList.delete hs (hash2node r),
       ring := fold (\<lambda>h a. ring_pop a h) hs (ring r)\<rparr>"
  by (induction hs arbitrary: r) (simp_all add: remove_point_def)

lemma remove_node_unregistered: "map_of (nodes r) n = None \<Longrightarrow> remove_node r n = r"
  by (simp add: remove_node_def)

lemma remove_node_fields:
  assumes "map_of (nodes r) n \<noteq> None" and "sorted (ring r)" and "distinct (map fst (hash2node r))"
  shows "replicas (remove_node r n) = replicas r"
    and "ring (remove_node r n) =
           fold remove1 (map fst (filter (\<lambda>(h, n'). n' = n) (hash2node r))) (ring r)"
    and "hash2node (remove_node r n) = filter (\<lambda>(h, n'). n' \<noteq> n) (hash2node r)"
    and "nodes (remove_node r n) = AList.delete n (nodes r)"
  using assms
  by (auto simp: remove_node_def Let_def fold_remove_point fold_ring_pop_sorted delete_owned)

section \<open>Invariants of the ring under add_node and remove_node\<close>

lemma delete_dom: "fst ` set (AList.delete k al) = fst ` set al - {k}"
  by (induction al) auto

lemma ring_wf_init: "ring_wf (init_ring v)"
  by (simp add: ring_wf_def init_ring_def)

lemma ring_wf_add_node:
  assumes "ring_wf r"
  shows "ring_wf (add_node H r n c)"
proof (cases "map_of (nodes r) n = None")
  case False
  with assms show ?thesis by (simp add: add_node_registered)
next
  case True
  note f = add_node_fields[OF True, of H c]
  have k: "n \<notin> fst ` set (nodes r)" using True by (simp add: map_of_eq_None_iff)
  have 1: "sorted (ring (add_node H r n c))" by (simp add: f)
  have 2: "distinct (map fst (hash2node (add_node H r n c)))"
    using assms by (simp add: f fold_update_distinct ring_wf_def)
  have 3: "distinct (map fst (nodes (add_node H r n c)))"
    using assms k by (auto simp: f ring_wf_def)
  have 4: "fst ` set (hash2node (add_node H r n c)) \<subseteq> set (ring (add_node H r n c))"
    using assms by (auto simp: f fold_update_keys ring_wf_def)
  have 5: "snd ` set (hash2node (add_node H r n c)) \<subseteq> fst ` set (nodes (add_node H r n c))"
  proof
    fix m assume "m \<in> snd ` set (hash2node (add_node H r n c))"
    with fold_update_values[of n "node_points H r n" "hash2node r"]
    have "m = n \<or> m \<in> snd ` set (hash2node r)" by (auto simp: f)
    with assms show "m \<in> fst ` set (nodes (add_node H r n c))"
      by (auto simp: f ring_wf_def)
  qed
  from 1 2 3 4 5 show ?thesis by (simp add: ring_wf_def)
qed

lemma ring_wf_remove_node:
  assumes "ring_wf r"
  shows "ring_wf (remove_node r n)"
proof (cases "map_of (nodes r) n = None")
  case True
  with assms show ?thesis by (simp add: remove_node_unregistered)
next
  case False
  have s: "sorted (ring r)" and d: "distinct (map fst (hash2node r))"
    using assms by (simp_all add: ring_wf_def)
  note f = remove_node_fields[OF False s d]
  let ?hs = "map fst (filter (\<lambda>(h, n'). n' = n) (hash2node r))"
  have 1: "sorted (ring (remove_node r n))"
    using fold_ring_pop_sorted[OF s, of ?hs] by (simp add: f)
  have 2: "distinct (map fst (hash2node (remove_node r n)))"
    using d by (simp add: f distinct_map_filter)
  have 3: "distinct (map fst (nodes (remove_node r n)))"
    using assms by (simp add: f ring_wf_def distinct_delete)
  have 4: "fst ` set (hash2node (remove_node r n)) \<subseteq> set (ring (remove_node r n))"
  proof
    fix k assume "k \<in> fst ` set (hash2node (remove_node r n))"
    then obtain m where km: "(k, m) \<in> set (hash2node r)" "m \<noteq> n" by (auto simp: f)
    from owned_keys[OF d km(1), of n] km(2) have "k \<notin> set ?hs" by simp
    moreover from km(1) assms have "k \<in> set (ring r)" by (force simp: ring_wf_def)
    ultimately show "k \<in> set (ring (remove_node r n))"
      by (simp add: f set_fold_remove1_keeps)
  qed
  have 5: "snd ` set (hash2node (remove_node r n)) \<subseteq> fst ` set (nodes (remove_node r n))"
  proof
    fix m assume "m \<in> snd ` set (hash2node (remove_node r n))"
    then obtain k where km: "(k, m) \<in> set (hash2node r)" "m \<noteq> n" by (auto simp: f)
    with assms have "m \<in> fst ` set (nodes r)" by (force simp: ring_wf_def)
    with km(2) show "m \<in> fst ` set (nodes (remove_node r n))"
      by (simp add: f delete_dom)
  qed
  from 1 2 3 4 5 show ?thesis by (simp add: ring_wf_def)
qed

lemma ring_wf_apply_op: "ring_wf r \<Longrightarrow> ring_wf (apply_op H op r)"
  by (cases op) (simp_all add: ring_wf_add_node ring_wf_remove_node)

lemma ring_wf_run_ops: "ring_wf r \<Longrightarrow> ring_wf (run_ops H ops r)"
  unfolding run_ops_def by (induction ops arbitrary: r) (simp_all add: ring_wf_apply_op)

lemma replicas_add_node [simp]: "replicas (add_node H r n c) = replicas r"
  by (cases "map_of (nodes r) n = None") (simp_all add: add_node_fields add_node_registered del: not_None_eq)

lemma replicas_remove_node [simp]: "replicas (remove_node r n) = replicas r"
  by (simp add: remove_node_def Let_def fold_remove_point)

lemma replicas_run_ops [simp]: "replicas (run_ops H ops r) = replicas r"
proof (induction ops arbitrary: r)
  case Nil
  then show ?case by (simp add: run_ops_def)
next
  case (Cons op ops)
  then show ?case by (cases op) (simp_all add: run_ops_def)
qed

lemma ring_strict_init: "ring_strict (init_ring v)"
  by (simp add: ring_strict_def ring_wf_init) (simp add: init_ring_def)

lemma ring_strict_add_node:
  assumes "ring_strict r" and "map_of (nodes r) n \<noteq> None \<or> fresh_points H r n"
  shows "ring_strict (add_node H r n c)"
proof (cases "map_of (nodes r) n = None")
  case False
  with assms show ?thesis by (simp add: add_node_registered)
next
  case True
  note f = add_node_fields[OF True, of H c]
  from True assms(2) have fr: "distinct (node_points H r n)"
    "set (node_points H r n) \<inter> set (ring r) = {}"
    by (auto simp: fresh_points_def)
  have wf: "ring_wf (add_node H r n c)" using assms(1) by (simp add: ring_strict_def ring_wf_add_node)
  have 1: "distinct (ring (add_node H r n c))"
    using assms(1) fr by (auto simp: f ring_strict_def)
  have 2: "set (ring (add_node H r n c)) = fst ` set (hash2node (add_node H r n c))"
    using assms(1) by (auto simp: f fold_update_keys ring_strict_def)
  from wf 1 2 show ?thesis by (simp add: ring_strict_def)
qed

lemma ring_strict_remove_node:
  assumes "ring_strict r"
  shows "ring_strict (remove_node r n)"
proof (cases "map_of (nodes r) n = None")
  case True
  with assms show ?thesis by (simp add: remove_node_unregistered)
next
  case False
  have wfr: "ring_wf r" using assms by (simp add: ring_strict_def)
  have s: "sorted (ring r)" and d: "distinct (map fst (hash2node r))"
    using wfr by (simp_all add: ring_wf_def)
  note f = remove_node_fields[OF False s d]
  let ?hs = "map fst (filter (\<lambda>(h, n'). n' = n) (hash2node r))"
  have dr: "distinct (ring r)" and eq: "set (ring r) = fst ` set (hash2node r)"
    using assms by (simp_all add: ring_strict_def)
  have wf: "ring_wf (remove_node r n)" using wfr by (rule ring_wf_remove_node)
  have 1: "distinct (ring (remove_node r n))"
    using set_fold_remove1_distinct[OF dr, of ?hs] by (simp add: f)
  have 2: "set (ring (remove_node r n)) = fst ` set (hash2node (remove_node r n))"
  proof -
    have "set (ring (remove_node r n)) = fst ` set (hash2node r) - set ?hs"
      using set_fold_remove1_distinct[OF dr, of ?hs] eq by (simp add: f)
    also have "\<dots> = fst ` set (filter (\<lambda>(h, n'). n' \<noteq> n) (hash2node r))"
    proof (intro set_eqI iffI)
      fix k assume "k \<in> fst ` set (hash2node r) - set ?hs"
      then obtain m where km: "(k, m) \<in> set (hash2node r)" and nk: "k \<notin> set ?hs" by auto
      from owned_keys[OF d km, of n] nk have "m \<noteq> n" by simp
      with km show "k \<in> fst ` set (filter (\<lambda>(h, n'). n' \<noteq> n) (hash2node r))" by force
    next
      fix k assume "k \<in> fst ` set (filter (\<lambda>(h, n'). n' \<noteq> n) (hash2node r))"
      then obtain m where km: "(k, m) \<in> set (hash2node r)" and mn: "m \<noteq> n" by auto
      from owned_keys[OF d km, of n] mn have "k \<notin> set ?hs" by simp
      with km show "k \<in> fst ` set (hash2node r) - set ?hs" by force
    qed
    finally show ?thesis by (simp add: f)
  qed
  from wf 1 2 show ?thesis by (simp add: ring_strict_def)
qed

lemma ring_strict_run_ops:
  "ring_strict r \<Longrightarrow> collision_free H ops r \<Longrightarrow> ring_strict (run_ops H ops r)"
proof (induction ops arbitrary: r)
  case Nil
  then show ?case by (simp add: run_ops_def)
next
  case (Cons op ops)
  show ?case
  proof (cases op)
    case (Add_node n c)
    with Cons.prems have "ring_strict (add_node H r n c)" "collision_free H ops (add_node H r n c)"
      by (auto intro: ring_strict_add_node)
    from Cons.IH[OF this] Add_node show ?thesis by (simp add: run_ops_def)
  next
    case (Remove_node n)
    with Cons.prems have "ring_strict (remove_node r n)" "collision_free H ops (remove_node r n)"
      by (auto intro: ring_strict_remove_node)
    from Cons.IH[OF this] Remove_node show ?thesis by (simp add: run_ops_def)
  qed
qed

lemma ring_covered_init: "ring_covered (init_ring v)"
  by (simp add: ring_covered_def ring_strict_init) (simp add: init_ring_def)

lemma ring_covered_add_node:
  assumes "ring_covered r" and "0 < replicas r"
    and "map_of (nodes r) n \<noteq> None \<or> fresh_points H r n"
  shows "ring_covered (add_node H r n c)"
proof (cases "map_of (nodes r) n = None")
  case False
  with assms show ?thesis by (simp add: add_node_registered)
next
  case True
  note f = add_node_fields[OF True, of H c]
  have st: "ring_strict r" using assms(1) by (simp add: ring_covered_def)
  from True assms(3) have fr: "distinct (node_points H r n)"
    "set (node_points H r n) \<inter> set (ring r) = {}"
    by (auto simp: fresh_points_def)
  have "set (node_points H r n) \<inter> fst ` set (hash2node r) = {}"
    using fr(2) st by (simp add: ring_strict_def)
  from fold_update_fresh[OF fr(1) this, of n]
  have h2n: "hash2node (add_node H r n c) = hash2node r @ map (\<lambda>h. (h, n)) (node_points H r n)"
    by (simp add: f)
  have ne: "node_points H r n \<noteq> []" using assms(2) by (simp add: node_points_def)
  have "fst ` set (nodes (add_node H r n c)) \<subseteq> snd ` set (hash2node (add_node H r n c))"
  proof
    fix m assume "m \<in> fst ` set (nodes (add_node H r n c))"
    then have "m = n \<or> m \<in> fst ` set (nodes r)" by (auto simp: f)
    then show "m \<in> snd ` set (hash2node (add_node H r n c))"
    proof
      assume "m = n"
      from ne obtain h where "h \<in> set (node_points H r n)" by (cases "node_points H r n") auto
      then have "(h, n) \<in> set (hash2node (add_node H r n c))" by (simp add: h2n)
      with \<open>m = n\<close> show ?thesis by force
    next
      assume "m \<in> fst ` set (nodes r)"
      with assms(1) have "m \<in> snd ` set (hash2node r)" by (auto simp: ring_covered_def)
      then show ?thesis by (auto simp: h2n)
    qed
  qed
  with ring_strict_add_node[OF st assms(3), of c] show ?thesis by (simp add: ring_covered_def)
qed

lemma ring_covered_remove_node:
  assumes "ring_covered r"
  shows "ring_covered (remove_node r n)"
proof (cases "map_of (nodes r) n = None")
  case True
  with assms show ?thesis by (simp add: remove_node_unregistered)
next
  case False
  have st: "ring_strict r" using assms by (simp add: ring_covered_def)
  then have wfr: "ring_wf r" by (simp add: ring_strict_def)
  have s: "sorted (ring r)" and d: "distinct (map fst (hash2node r))"
    using wfr by (simp_all add: ring_wf_def)
  note f = remove_node_fields[OF False s d]
  have "fst ` set (nodes (remove_node r n)) \<subseteq> snd ` set (hash2node (remove_node r n))"
  proof
    fix m assume "m \<in> fst ` set (nodes (remove_node r n))"
    then have m: "m \<in> fst ` set (nodes r)" "m \<noteq> n" by (simp_all add: f delete_dom)
    with assms obtain k where "(k, m) \<in> set (hash2node r)" by (force simp: ring_covered_def)
    with m(2) show "m \<in> snd ` set (hash2node (remove_node r n))" by (force simp: f)
  qed
  with ring_strict_remove_node[OF st, of n] show ?thesis by (simp add: ring_covered_def)
qed

lemma ring_covered_run_ops:
  "ring_covered r \<Longrightarrow> 0 < replicas r \<Longrightarrow> collision_free H ops r \<Longrightarrow> ring_covered (run_ops H ops r)"
proof (induction ops arbitrary: r)
  case Nil
  then show ?case by (simp add: run_ops_def)
next
  case (Cons op ops)
  show ?case
  proof (cases op)
    case (Add_node n c)
    with Cons.prems have "ring_covered (add_node H r n c)" "0 < replicas (add_node H r n c)"
      "collision_free H ops (add_node H r n c)"
      by (auto intro: ring_covered_add_node)
    from Cons.IH[OF this] Add_node show ?thesis by (simp add: run_ops_def)
  next
    case (Remove_node n)
    with Cons.prems have "ring_covered (remove_node r n)" "0 < replicas (remove_node r n)"
      "collision_free H ops (remove_node r n)"
      by (auto intro: ring_covered_remove_node)
    from Cons.IH[OF this] Remove_node show ?thesis by (simp add: run_ops_def)
  qed
qed

section \<open>The replica walk: it returns\<close>

subsection \<open>One turn of the replica walk\<close>

lemma nodes_walk_stop:
  "\<not> (int (length found) < cnt \<and> 0 < length (ring r)) \<Longrightarrow>
     nodes_walk r cnt i found used = Some (Inr found)"
  by (subst nodes_walk.simps) (simp add: Let_def)

lemma nodes_walk_step_new:
  assumes "int (length found) < cnt" and "j = (if i = length (ring r) then 0 else i)"
    and "j < length (ring r)" and "map_of (hash2node r) (ring r ! j) = Some name"
    and "name \<notin> used" and "map_of (nodes r) name = Some c"
  shows "nodes_walk r cnt i found used =
     (if card (insert name used) = length (nodes r) then Some (Inr (found @ [(name, c)]))
      else nodes_walk r cnt (j + 1) (found @ [(name, c)]) (insert name used))"
proof -
  have "ring r \<noteq> []" using assms(3) by auto
  with assms show ?thesis by (subst nodes_walk.simps) (simp add: Let_def)
qed

lemma nodes_walk_step_old:
  assumes "int (length found) < cnt" and "j = (if i = length (ring r) then 0 else i)"
    and "j < length (ring r)" and "map_of (hash2node r) (ring r ! j) = Some name"
    and "name \<in> used"
  shows "nodes_walk r cnt i found used =
     (if card used = length (nodes r) then Some (Inr found)
      else nodes_walk r cnt (j + 1) found used)"
proof -
  have "ring r \<noteq> []" using assms(3) by auto
  with assms show ?thesis by (subst nodes_walk.simps) (simp add: Let_def)
qed

lemma nodes_walk_key_error:
  assumes "int (length found) < cnt" and "j = (if i = length (ring r) then 0 else i)"
    and "j < length (ring r)" and "map_of (hash2node r) (ring r ! j) = None"
  shows "nodes_walk r cnt i found used = Some (Inl KeyError)"
proof -
  have "ring r \<noteq> []" using assms(3) by auto
  with assms show ?thesis by (subst nodes_walk.simps) (simp add: Let_def)
qed

lemma wrap_step:
  "i \<le> L \<Longrightarrow> 0 < L \<Longrightarrow> ((if i = L then 0 else i) + 1 + k) mod L = (i + Suc k) mod (L::nat)"
proof (cases "i = L")
  case True
  have "(L + Suc k) mod L = Suc k mod L" by (rule mod_add_self1)
  with True show ?thesis by simp
next
  case False
  then show ?thesis by simp
qed

lemma wrap_start:
  "i \<le> L \<Longrightarrow> 0 < L \<Longrightarrow> (if i = L then 0 else i) = (i + 0) mod (L::nat)"
  by auto

lemma wrap_offset:
  assumes "p < (L::nat)"
  shows "\<exists>k < L. (i + k) mod L = p"
proof -
  define k where "k = (p + (L - i mod L)) mod L"
  have "k < L" using assms by (simp add: k_def)
  moreover have "(i + k) mod L = p"
  proof -
    have "(i + k) mod L = (i mod L + (p + (L - i mod L))) mod L"
      by (simp add: k_def mod_simps)
    also have "i mod L + (p + (L - i mod L)) = p + L"
    proof -
      have "i mod L < L" using assms by simp
      then show ?thesis by arith
    qed
    also have "(p + L) mod L = p" using assms by simp
    finally show ?thesis .
  qed
  ultimately show ?thesis by blast
qed

subsection \<open>The walk returns, with the right number of nodes\<close>

lemma card_names: "distinct (map fst found) \<Longrightarrow> card (fst ` set found) = length found"
  using distinct_card[of "map fst found"] by simp

lemma nodes_walk_total:
  assumes cov: "\<forall>h \<in> set (ring r). \<exists>n c. map_of (hash2node r) h = Some n \<and> map_of (nodes r) n = Some c"
    and dn: "distinct (map fst (nodes r))"
    and L: "0 < length (ring r)"
  shows "used = fst ` set found \<Longrightarrow> distinct (map fst found) \<Longrightarrow>
     fst ` set found \<subseteq> fst ` set (nodes r) \<Longrightarrow> length found < length (nodes r) \<Longrightarrow>
     int (length found) \<le> cnt \<Longrightarrow> i \<le> length (ring r) \<Longrightarrow>
     (\<forall>n \<in> fst ` set (nodes r) - used.
        \<exists>k < m. map_of (hash2node r) (ring r ! ((i + k) mod length (ring r))) = Some n) \<Longrightarrow>
     \<exists>res. nodes_walk r cnt i found used = Some (Inr res) \<and>
           int (length res) = min cnt (int (length (nodes r)))"
proof (induction m arbitrary: i found used)
  case 0
  then have "fst ` set (nodes r) \<subseteq> fst ` set found" by auto
  then have "card (fst ` set (nodes r)) \<le> card (fst ` set found)"
    by (simp add: card_mono)
  with card_names[OF dn] card_names[OF "0.prems"(2)] "0.prems"(4) show ?case by simp
next
  case (Suc m)
  note u = Suc.prems(1) and d = Suc.prems(2) and sub = Suc.prems(3) and lt = Suc.prems(4)
    and le = Suc.prems(5) and i = Suc.prems(6) and ahead = Suc.prems(7)
  have cu: "card used = length found" using card_names[OF d] u by simp
  show ?case
  proof (cases "int (length found) < cnt")
    case False
    with le have "int (length found) = cnt" by simp
    moreover from False have "nodes_walk r cnt i found used = Some (Inr found)"
      by (simp add: nodes_walk_stop)
    ultimately show ?thesis using lt by auto
  next
    case True
    define j where "j = (if i = length (ring r) then 0 else i)"
    have j: "j < length (ring r)" using i L by (auto simp: j_def)
    have jmod: "j = (i + 0) mod length (ring r)" using wrap_start[OF i L] by (simp add: j_def)
    from cov j obtain name c where
      own: "map_of (hash2node r) (ring r ! j) = Some name" and reg: "map_of (nodes r) name = Some c"
      by (meson nth_mem)
    have regk: "name \<in> fst ` set (nodes r)"
      using reg by (metis map_of_eq_None_iff option.distinct(1))
    show ?thesis
    proof (cases "name \<in> used")
      case old: True
      have step: "nodes_walk r cnt i found used = nodes_walk r cnt (j + 1) found used"
        using nodes_walk_step_old[OF True j_def j own old] cu lt by simp
      have ahead': "\<forall>n \<in> fst ` set (nodes r) - used.
          \<exists>k < m. map_of (hash2node r) (ring r ! ((j + 1 + k) mod length (ring r))) = Some n"
      proof
        fix n assume n: "n \<in> fst ` set (nodes r) - used"
        with ahead obtain k where k: "k < Suc m"
          "map_of (hash2node r) (ring r ! ((i + k) mod length (ring r))) = Some n" by blast
        have "k \<noteq> 0"
        proof
          assume "k = 0"
          with k(2) own jmod have "n = name" by simp
          with old n show False by simp
        qed
        then obtain k' where k': "k = Suc k'" by (cases k) auto
        with k wrap_step[OF i L, of k'] show
          "\<exists>k < m. map_of (hash2node r) (ring r ! ((j + 1 + k) mod length (ring r))) = Some n"
          by (auto simp: j_def)
      qed
      have "j + 1 \<le> length (ring r)" using j by simp
      from Suc.IH[OF u d sub lt le this ahead'] step show ?thesis by simp
    next
      case new: False
      let ?found = "found @ [(name, c)]" and ?used = "insert name used"
      have cu': "card ?used = Suc (length found)"
        using new cu u by (simp add: card_insert_if)
      have step: "nodes_walk r cnt i found used =
         (if card ?used = length (nodes r) then Some (Inr ?found)
          else nodes_walk r cnt (j + 1) ?found ?used)"
        by (rule nodes_walk_step_new[OF True j_def j own new reg])
      show ?thesis
      proof (cases "card ?used = length (nodes r)")
        case True
        with step cu' \<open>int (length found) < cnt\<close> show ?thesis by auto
      next
        case False
        have u': "?used = fst ` set ?found" using u by auto
        have d': "distinct (map fst ?found)" using d new u by auto
        have sub': "fst ` set ?found \<subseteq> fst ` set (nodes r)" using sub regk by auto
        have lt': "length ?found < length (nodes r)" using lt False cu' by simp
        have le': "int (length ?found) \<le> cnt" using \<open>int (length found) < cnt\<close> by simp
        have ahead': "\<forall>n \<in> fst ` set (nodes r) - ?used.
            \<exists>k < m. map_of (hash2node r) (ring r ! ((j + 1 + k) mod length (ring r))) = Some n"
        proof
          fix n assume n: "n \<in> fst ` set (nodes r) - ?used"
          with ahead obtain k where k: "k < Suc m"
            "map_of (hash2node r) (ring r ! ((i + k) mod length (ring r))) = Some n" by blast
          have "k \<noteq> 0"
          proof
            assume "k = 0"
            with k(2) own jmod have "n = name" by simp
            with n show False by simp
          qed
          then obtain k' where k': "k = Suc k'" by (cases k) auto
          with k wrap_step[OF i L, of k'] show
            "\<exists>k < m. map_of (hash2node r) (ring r ! ((j + 1 + k) mod length (ring r))) = Some n"
            by (auto simp: j_def)
        qed
        have "j + 1 \<le> length (ring r)" using j by simp
        from Suc.IH[OF u' d' sub' lt' le' this ahead'] step False show ?thesis by simp
      qed
    qed
  qed
qed

section \<open>Primary and replica set on a well-formed ring\<close>

subsection \<open>The primary\<close>

lemma get_node_empty: "ring r = [] \<Longrightarrow> get_node H r key = Inr None"
  by (simp add: get_node_def)

lemma get_node_at:
  assumes "ring r \<noteq> []"
    and "j = (if bisect (ring r) (H key) = length (ring r) then 0 else bisect (ring r) (H key))"
  shows "get_node H r key =
       (case map_of (hash2node r) (ring r ! j) of
          None \<Rightarrow> Inl KeyError
        | Some n \<Rightarrow> (case map_of (nodes r) n of
                       None \<Rightarrow> Inl KeyError
                     | Some c \<Rightarrow> Inr (Some (n, c))))"
  using assms bisect_le_length[of "ring r" "H key"]
  by (auto simp: get_node_def Let_def)

lemma get_node_successor:
  assumes s: "sorted (ring r)" and ne: "ring r \<noteq> []"
  shows "\<exists>p. p \<in> set (ring r) \<and>
     (if \<exists>q \<in> set (ring r). H key < q
      then H key < p \<and> (\<forall>q \<in> set (ring r). H key < q \<longrightarrow> p \<le> q)
      else \<forall>q \<in> set (ring r). p \<le> q) \<and>
     get_node H r key =
       (case map_of (hash2node r) p of
          None \<Rightarrow> Inl KeyError
        | Some n \<Rightarrow> (case map_of (nodes r) n of
                       None \<Rightarrow> Inl KeyError
                     | Some c \<Rightarrow> Inr (Some (n, c))))"
proof -
  define idx where "idx = bisect (ring r) (H key)"
  define j where "j = (if idx = length (ring r) then 0 else idx)"
  have le: "idx \<le> length (ring r)" by (simp add: idx_def bisect_le_length)
  have j: "j < length (ring r)" using le ne by (auto simp: j_def)
  from bisect_sorted[OF s, of "H key"]
  have lo: "\<forall>k < idx. ring r ! k \<le> H key"
    and hi: "\<forall>k. idx \<le> k \<and> k < length (ring r) \<longrightarrow> H key < ring r ! k"
    by (simp_all add: idx_def)
  have g: "get_node H r key =
       (case map_of (hash2node r) (ring r ! j) of
          None \<Rightarrow> Inl KeyError
        | Some n \<Rightarrow> (case map_of (nodes r) n of
                       None \<Rightarrow> Inl KeyError
                     | Some c \<Rightarrow> Inr (Some (n, c))))"
    by (rule get_node_at[OF ne]) (simp add: j_def idx_def)
  have m: "ring r ! j \<in> set (ring r)" using j by simp
  have pos: "if \<exists>q \<in> set (ring r). H key < q
      then H key < ring r ! j \<and> (\<forall>q \<in> set (ring r). H key < q \<longrightarrow> ring r ! j \<le> q)
      else \<forall>q \<in> set (ring r). ring r ! j \<le> q"
  proof (cases "idx = length (ring r)")
    case True
    with lo have all: "\<forall>q \<in> set (ring r). q \<le> H key" by (auto simp: in_set_conv_nth)
    have "j = 0" using True by (simp add: j_def)
    moreover have "\<forall>q \<in> set (ring r). ring r ! 0 \<le> q"
      using s ne by (auto simp: in_set_conv_nth sorted_nth_mono)
    ultimately show ?thesis using all by auto
  next
    case False
    with le have lt: "idx < length (ring r)" by simp
    have jj: "j = idx" using False by (simp add: j_def)
    from hi lt have gt: "H key < ring r ! idx" by simp
    have least: "\<forall>q \<in> set (ring r). H key < q \<longrightarrow> ring r ! idx \<le> q"
    proof (intro ballI impI)
      fix q assume "q \<in> set (ring r)" and q: "H key < q"
      then obtain k where k: "k < length (ring r)" "ring r ! k = q" by (auto simp: in_set_conv_nth)
      with lo q have "idx \<le> k" by (meson not_less leD)
      with s k show "ring r ! idx \<le> q" by (auto simp: sorted_nth_mono)
    qed
    from gt lt have "\<exists>q \<in> set (ring r). H key < q" by (meson nth_mem)
    with gt least jj show ?thesis by simp
  qed
  from m pos g show ?thesis by blast
qed

lemma strict_owner:
  assumes st: "ring_strict r" and "h \<in> set (ring r)"
  shows "\<exists>n c. map_of (hash2node r) h = Some n \<and> map_of (nodes r) n = Some c"
proof -
  from st have wf: "ring_wf r" by (simp add: ring_strict_def)
  from st assms(2) obtain n where hn: "(h, n) \<in> set (hash2node r)"
    by (auto simp: ring_strict_def)
  with wf have 1: "map_of (hash2node r) h = Some n" by (simp add: ring_wf_def)
  from hn wf have "n \<in> fst ` set (nodes r)" by (force simp: ring_wf_def)
  then obtain c where "map_of (nodes r) n = Some c"
    by (metis map_of_eq_None_iff not_None_eq)
  with 1 show ?thesis by blast
qed

lemma covered_owner:
  assumes "ring_covered r" and "h \<in> set (ring r)"
  shows "\<exists>n c. map_of (hash2node r) h = Some n \<and> map_of (nodes r) n = Some c"
  using assms strict_owner[of r h] by (simp add: ring_covered_def)

lemma covered_point:
  assumes "ring_covered r" and "n \<in> fst ` set (nodes r)"
  shows "\<exists>h \<in> set (ring r). map_of (hash2node r) h = Some n"
proof -
  from assms have st: "ring_strict r" by (simp add: ring_covered_def)
  then have wf: "ring_wf r" by (simp add: ring_strict_def)
  from assms obtain h where hn: "(h, n) \<in> set (hash2node r)" by (force simp: ring_covered_def)
  with wf have "map_of (hash2node r) h = Some n" by (simp add: ring_wf_def)
  moreover from hn st have "h \<in> set (ring r)" by (force simp: ring_strict_def)
  ultimately show ?thesis by blast
qed

lemma wf_owner_registered:
  assumes "ring_wf r" and "map_of (hash2node r) h = Some n"
  shows "\<exists>c. map_of (nodes r) n = Some c"
proof -
  from assms(2) have "(h, n) \<in> set (hash2node r)" by (rule map_of_SomeD)
  with assms(1) have "n \<in> fst ` set (nodes r)" by (force simp: ring_wf_def)
  then show ?thesis by (metis map_of_eq_None_iff not_None_eq)
qed

subsection \<open>One replica\<close>

lemma replica_set_of_one:
  assumes "ring_wf r"
  shows "get_nodes_for_key H r key 1 =
     Some (case get_node H r key of
             Inl e \<Rightarrow> Inl e
           | Inr None \<Rightarrow> Inr []
           | Inr (Some p) \<Rightarrow> Inr [p])"
proof (cases "ring r = []")
  case True
  then show ?thesis by (simp add: get_nodes_for_key_def get_node_def)
next
  case ne: False
  define idx where "idx = bisect (ring r) (H key)"
  define j where "j = (if idx = length (ring r) then 0 else idx)"
  have le: "idx \<le> length (ring r)" by (simp add: idx_def bisect_le_length)
  have j: "j < length (ring r)" using le ne by (auto simp: j_def)
  have g: "get_node H r key =
       (case map_of (hash2node r) (ring r ! j) of
          None \<Rightarrow> Inl KeyError
        | Some n \<Rightarrow> (case map_of (nodes r) n of
                       None \<Rightarrow> Inl KeyError
                     | Some c \<Rightarrow> Inr (Some (n, c))))"
    by (rule get_node_at[OF ne]) (simp add: j_def idx_def)
  have w: "get_nodes_for_key H r key 1 = nodes_walk r 1 idx [] {}"
    using ne by (simp add: get_nodes_for_key_def Let_def idx_def)
  have one: "int (length ([]::(string \<times> 'a) list)) < 1" by simp
  show ?thesis
  proof (cases "map_of (hash2node r) (ring r ! j)")
    case None
    with nodes_walk_key_error[OF one j_def j None] g w show ?thesis by simp
  next
    case (Some name)
    from wf_owner_registered[OF assms Some] obtain c where reg: "map_of (nodes r) name = Some c" ..
    have "nodes_walk r 1 idx [] {} = Some (Inr [(name, c)])"
    proof (cases "card {name} = length (nodes r)")
      case True
      with nodes_walk_step_new[OF one j_def j Some _ reg] show ?thesis by simp
    next
      case False
      have "nodes_walk r 1 (j + 1) [(name, c)] {name} = Some (Inr [(name, c)])"
        by (rule nodes_walk_stop) simp
      with False nodes_walk_step_new[OF one j_def j Some _ reg] show ?thesis by simp
    qed
    with g w Some reg show ?thesis by simp
  qed
qed

subsection \<open>The whole replica set\<close>

lemma replica_set_total:
  assumes cov: "ring_covered r" and cnt: "0 \<le> cnt"
  shows "\<exists>ns. get_nodes_for_key H r key cnt = Some (Inr ns) \<and>
     int (length ns) = min cnt (int (length (nodes r)))"
proof (cases "ring r = []")
  case True
  have "nodes r = []"
  proof (rule ccontr)
    assume "nodes r \<noteq> []"
    then obtain n where "n \<in> fst ` set (nodes r)" by (cases "nodes r") auto
    from covered_point[OF cov this] True show False by simp
  qed
  with True cnt show ?thesis by (simp add: get_nodes_for_key_def)
next
  case ne: False
  define idx where "idx = bisect (ring r) (H key)"
  have le: "idx \<le> length (ring r)" by (simp add: idx_def bisect_le_length)
  have L: "0 < length (ring r)" using ne by simp
  have c1: "\<forall>h \<in> set (ring r). \<exists>n c. map_of (hash2node r) h = Some n \<and> map_of (nodes r) n = Some c"
    using covered_owner[OF cov] by blast
  have dn: "distinct (map fst (nodes r))"
    using cov by (simp add: ring_covered_def ring_strict_def ring_wf_def)
  have nn: "length ([]::(string \<times> 'a) list) < length (nodes r)"
  proof -
    from ne obtain h where "h \<in> set (ring r)" by (cases "ring r") auto
    from covered_owner[OF cov this] obtain n c where "map_of (nodes r) n = Some c" by blast
    then have "nodes r \<noteq> []" by auto
    then show ?thesis by simp
  qed
  have ahead: "\<forall>n \<in> fst ` set (nodes r) - {}.
      \<exists>k < length (ring r). map_of (hash2node r) (ring r ! ((idx + k) mod length (ring r))) = Some n"
  proof
    fix n assume "n \<in> fst ` set (nodes r) - {}"
    then have "n \<in> fst ` set (nodes r)" by simp
    from covered_point[OF cov this] obtain p where
      p: "p < length (ring r)" "map_of (hash2node r) (ring r ! p) = Some n"
      by (auto simp: in_set_conv_nth)
    from wrap_offset[OF p(1), of idx] obtain k where
      "k < length (ring r)" "(idx + k) mod length (ring r) = p" by blast
    with p(2) show "\<exists>k < length (ring r).
        map_of (hash2node r) (ring r ! ((idx + k) mod length (ring r))) = Some n" by auto
  qed
  have "\<exists>res. nodes_walk r cnt idx [] {} = Some (Inr res) \<and>
           int (length res) = min cnt (int (length (nodes r)))"
    by (rule nodes_walk_total[OF c1 dn L _ _ _ nn _ le ahead]) (use cnt in simp_all)
  then show ?thesis using ne by (simp add: get_nodes_for_key_def Let_def idx_def)
qed


section \<open>Rings reached from the empty ring\<close>

lemma replicas_init_ring [simp]: "replicas (init_ring v) = v"
  by (simp add: init_ring_def)

lemma ring_wf_reachable: "ring_wf (run_ops H ops (init_ring v))"
  by (simp add: ring_wf_run_ops ring_wf_init)

lemma ring_strict_reachable:
  "collision_free H ops (init_ring v) \<Longrightarrow> ring_strict (run_ops H ops (init_ring v))"
  by (simp add: ring_strict_run_ops ring_strict_init)

lemma ring_covered_reachable:
  assumes "collision_free H ops (init_ring v)" and "0 < v"
  shows "ring_covered (run_ops H ops (init_ring v))"
proof -
  have "0 < replicas (init_ring v :: 'a hash_ring)" using assms(2) by (simp add: init_ring_def)
  from ring_covered_run_ops[OF ring_covered_init this assms(1)] show ?thesis .
qed

subsection \<open>Adding a node and removing it again\<close>

lemma sorted_same_mset:
  assumes "sorted xs" and "sorted ys" and "mset xs = mset ys"
  shows "xs = (ys :: int list)"
proof -
  from properties_for_sort[OF assms(3) assms(1)] have "sort ys = xs" .
  with assms(2) show ?thesis by (simp add: sorted_sort_id)
qed

lemma delete_last_entry:
  "k \<notin> fst ` set al \<Longrightarrow> AList.delete k (al @ [(k, v)]) = al"
  by (induction al) auto

lemma add_node_appends:
  assumes "map_of (nodes r) n = None"
  shows "mset (ring (add_node H r n c)) = mset (ring r) + mset (node_points H r n)"
    and "\<forall>h \<in> set (node_points H r n). map_of (hash2node (add_node H r n c)) h = Some n"
    and "\<forall>h. h \<notin> set (node_points H r n) \<longrightarrow>
           map_of (hash2node (add_node H r n c)) h = map_of (hash2node r) h"
  by (simp_all add: add_node_fields[OF assms] fold_update_map_of)

lemma add_then_remove:
  assumes wf: "ring_wf r" and un: "map_of (nodes r) n = None" and fr: "fresh_points H r n"
  shows "remove_node (add_node H r n c) n = r"
proof -
  let ?ps = "node_points H r n"
  let ?r = "add_node H r n c"
  note f = add_node_fields[OF un, of H c]
  have k: "n \<notin> fst ` set (nodes r)" using un by (simp add: map_of_eq_None_iff)
  have dps: "distinct ?ps" and disj: "set ?ps \<inter> set (ring r) = {}"
    using fr by (auto simp: fresh_points_def)
  have "set ?ps \<inter> fst ` set (hash2node r) = {}"
    using disj wf by (auto simp: ring_wf_def)
  from fold_update_fresh[OF dps this, of n]
  have h2n: "hash2node ?r = hash2node r @ map (\<lambda>h. (h, n)) ?ps" by (simp add: f)
  have nov: "\<forall>(h, m) \<in> set (hash2node r). m \<noteq> n"
    using wf k by (force simp: ring_wf_def)
  have keep: "filter (\<lambda>(h, n'). n' \<noteq> n) (hash2node r) = hash2node r"
    using nov by (auto intro: filter_True)
  have none: "filter (\<lambda>(h, n'). n' = n) (hash2node r) = []"
    using nov by (auto simp: filter_empty_conv)
  have own: "map fst (filter (\<lambda>(h, n'). n' = n) (hash2node ?r)) = ?ps"
    by (simp add: h2n none filter_map comp_def)
  have rest: "filter (\<lambda>(h, n'). n' \<noteq> n) (hash2node ?r) = hash2node r"
    by (simp add: h2n keep filter_map comp_def)
  have wf': "ring_wf ?r" using wf by (rule ring_wf_add_node)
  then have s': "sorted (ring ?r)" and d': "distinct (map fst (hash2node ?r))"
    by (simp_all add: ring_wf_def)
  have reg: "map_of (nodes ?r) n \<noteq> None" using k by (simp add: f)
  note g = remove_node_fields[OF reg s' d']
  have gr: "ring (remove_node ?r n) = fold remove1 ?ps (ring ?r)"
    using g(2) unfolding own .
  have gh: "hash2node (remove_node ?r n) = hash2node r"
    using g(3) unfolding rest .
  have 1: "replicas (remove_node ?r n) = replicas r" by (simp add: g(1) f(1))
  have 2: "ring (remove_node ?r n) = ring r"
  proof (rule sorted_same_mset)
    show "sorted (ring (remove_node ?r n))"
      using fold_ring_pop_sorted[OF s', of ?ps] by (simp add: gr)
    show "sorted (ring r)" using wf by (simp add: ring_wf_def)
    show "mset (ring (remove_node ?r n)) = mset (ring r)"
      by (simp add: gr mset_fold_remove1 f(2))
  qed
  have 3: "hash2node (remove_node ?r n) = hash2node r" by (rule gh)
  have 4: "nodes (remove_node ?r n) = nodes r"
    using k by (simp add: g(4) f(4) delete_last_entry)
  from 1 2 3 4 show ?thesis by (intro hash_ring.equality) simp_all
qed

subsection \<open>The ring of the two nodes\<close>

lemma ops_ab_collision_free: "collision_free toy_hash ops_ab (init_ring 2)"
  by code_simp


lemma get_node_ab:
  "get_node toy_hash (run_ops toy_hash ops_ab (init_ring 2)) ''a:1:1'' = Inr (Some (''b:2'', 2))"
  "get_node toy_hash (run_ops toy_hash ops_ab (init_ring 2)) ''zzzzzzz'' = Inr (Some (''a:1'', 1))"
  "get_node toy_hash (init_ring 2 :: int hash_ring) ''k'' = Inr None"
  by code_simp+


lemma fresh_c3: "fresh_points toy_hash (run_ops toy_hash ops_ab (init_ring 2)) ''c:3''"
  by code_simp

lemma unregistered_c3: "map_of (nodes (run_ops toy_hash ops_ab (init_ring 2))) ''c:3'' = None"
  by code_simp

section \<open>The claims about the ring\<close>




text \<open>
  C2. On every ring reached from the empty ring by calls of \<^verbatim>\<open>add_node\<close> and
  \<^verbatim>\<open>remove_node\<close>: \<^verbatim>\<open>get_node\<close> returns \<^verbatim>\<open>(None, None)\<close> when the ring has no
  point. Otherwise there is a point \<open>p\<close> of the ring that decides the answer: \<open>p\<close>
  is the least point greater than the hash of the key when some point is greater, and
  the least point of the ring when none is (the wrap to the first point); the answer is
  the node recorded as the owner of \<open>p\<close> with its client, and a \<^verbatim>\<open>KeyError\<close>
  only if \<open>p\<close> has no owner; when no inserted point collided, \<open>p\<close> has an owner and
  the answer is that node. \<^verbatim>\<open>get_node\<close> reads the ring and writes nothing: it is a
  function of the ring state and the key, so repeated calls on one state agree.
\<close>

theorem get_node_ring_successor:
  assumes "r = run_ops H ops (init_ring v)"
  shows "(ring r = [] \<longrightarrow> get_node H r key = Inr None) \<and>
     (ring r \<noteq> [] \<longrightarrow>
        (\<exists>p. p \<in> set (ring r) \<and>
           (if \<exists>q \<in> set (ring r). H key < q
            then H key < p \<and> (\<forall>q \<in> set (ring r). H key < q \<longrightarrow> p \<le> q)
            else \<forall>q \<in> set (ring r). p \<le> q) \<and>
           get_node H r key =
             (case map_of (hash2node r) p of
                None \<Rightarrow> Inl KeyError
              | Some n \<Rightarrow> (case map_of (nodes r) n of
                             None \<Rightarrow> Inl KeyError
                           | Some c \<Rightarrow> Inr (Some (n, c)))) \<and>
           (collision_free H ops (init_ring v) \<longrightarrow>
              (\<exists>n c. map_of (hash2node r) p = Some n \<and> map_of (nodes r) n = Some c \<and>
                     get_node H r key = Inr (Some (n, c))))))"
proof (intro conjI impI)
  assume "ring r = []"
  then show "get_node H r key = Inr None" by (rule get_node_empty)
next
  assume ne: "ring r \<noteq> []"
  have wf: "ring_wf r" unfolding assms by (rule ring_wf_reachable)
  then have "sorted (ring r)" by (simp add: ring_wf_def)
  from get_node_successor[OF this ne, of H key] obtain p where
    p: "p \<in> set (ring r)"
    and pos: "if \<exists>q \<in> set (ring r). H key < q
            then H key < p \<and> (\<forall>q \<in> set (ring r). H key < q \<longrightarrow> p \<le> q)
            else \<forall>q \<in> set (ring r). p \<le> q"
    and g: "get_node H r key =
             (case map_of (hash2node r) p of
                None \<Rightarrow> Inl KeyError
              | Some n \<Rightarrow> (case map_of (nodes r) n of
                             None \<Rightarrow> Inl KeyError
                           | Some c \<Rightarrow> Inr (Some (n, c))))"
    by blast
  have "collision_free H ops (init_ring v) \<longrightarrow>
              (\<exists>n c. map_of (hash2node r) p = Some n \<and> map_of (nodes r) n = Some c \<and>
                     get_node H r key = Inr (Some (n, c)))"
  proof
    assume "collision_free H ops (init_ring v)"
    then have "ring_strict r" unfolding assms by (rule ring_strict_reachable)
    from strict_owner[OF this p] obtain n c where
      "map_of (hash2node r) p = Some n" "map_of (nodes r) n = Some c" by blast
    with g show "\<exists>n c. map_of (hash2node r) p = Some n \<and> map_of (nodes r) n = Some c \<and>
                     get_node H r key = Inr (Some (n, c))" by simp
  qed
  with p pos g show "\<exists>p. p \<in> set (ring r) \<and>
           (if \<exists>q \<in> set (ring r). H key < q
            then H key < p \<and> (\<forall>q \<in> set (ring r). H key < q \<longrightarrow> p \<le> q)
            else \<forall>q \<in> set (ring r). p \<le> q) \<and>
           get_node H r key =
             (case map_of (hash2node r) p of
                None \<Rightarrow> Inl KeyError
              | Some n \<Rightarrow> (case map_of (nodes r) n of
                             None \<Rightarrow> Inl KeyError
                           | Some c \<Rightarrow> Inr (Some (n, c)))) \<and>
           (collision_free H ops (init_ring v) \<longrightarrow>
              (\<exists>n c. map_of (hash2node r) p = Some n \<and> map_of (nodes r) n = Some c \<and>
                     get_node H r key = Inr (Some (n, c))))"
    by blast
qed

theorem get_node_ring_successor_witness:
  "get_node toy_hash (run_ops toy_hash ops_ab (init_ring 2)) ''a:1:1'' = Inr (Some (''b:2'', 2)) \<and>
   get_node toy_hash (run_ops toy_hash ops_ab (init_ring 2)) ''zzzzzzz'' = Inr (Some (''a:1'', 1)) \<and>
   get_node toy_hash (run_ops toy_hash [] (init_ring 2) :: int hash_ring) ''k'' = Inr None"
  using get_node_ring_successor[OF refl, of toy_hash ops_ab 2 "''a:1:1''"]
    get_node_ring_successor[OF refl, of toy_hash "[]::int ring_op list" 2 "''k''"]
    get_node_ab
  by (simp add: run_ops_def)

text \<open>
  C6. The specification takes the points of a ring to have no duplicates; a node whose
  points are fresh in a ring (pairwise distinct, none in the ring already) is a node
  added under that assumption. Take any ring reached from the empty ring by calls of
  \<^verbatim>\<open>add_node\<close> and \<^verbatim>\<open>remove_node\<close> and a node that is not registered and whose
  points are fresh in it. Then \<^verbatim>\<open>add_node\<close> followed by \<^verbatim>\<open>remove_node\<close> of that
  node gives back the very same ring state: points, owners and registered nodes.
  \<^verbatim>\<open>add_node\<close> inserts \<^verbatim>\<open>replicas\<close> points: the ring afterwards holds the old
  points and the new ones, each new point is owned by the new node and every other owner
  is unchanged. \<^verbatim>\<open>remove_node\<close> deletes those points and only those: the ring
  afterwards is the ring before it less the points of the node, none of which is left in
  the ring or has an owner, and the owner of every other value is unchanged.
\<close>

theorem add_then_remove_restores:
  assumes "r = run_ops H ops (init_ring v)" and "map_of (nodes r) n = None"
    and "fresh_points H r n"
  shows "remove_node (add_node H r n c) n = r \<and>
     length (node_points H r n) = nat (replicas r) \<and>
     mset (ring (add_node H r n c)) = mset (ring r) + mset (node_points H r n) \<and>
     (\<forall>h \<in> set (node_points H r n). map_of (hash2node (add_node H r n c)) h = Some n) \<and>
     (\<forall>h. h \<notin> set (node_points H r n) \<longrightarrow>
        map_of (hash2node (add_node H r n c)) h = map_of (hash2node r) h) \<and>
     mset (ring (remove_node (add_node H r n c) n)) =
       mset (ring (add_node H r n c)) - mset (node_points H r n) \<and>
     (\<forall>h \<in> set (node_points H r n).
        h \<notin> set (ring (remove_node (add_node H r n c) n)) \<and>
        map_of (hash2node (remove_node (add_node H r n c) n)) h = None) \<and>
     (\<forall>h. h \<notin> set (node_points H r n) \<longrightarrow>
        map_of (hash2node (remove_node (add_node H r n c) n)) h =
          map_of (hash2node (add_node H r n c)) h)"
proof -
  have wf: "ring_wf r" unfolding assms(1) by (rule ring_wf_reachable)
  have len: "length (node_points H r n) = nat (replicas r)" by (simp add: node_points_def)
  have restored: "remove_node (add_node H r n c) n = r"
    by (rule add_then_remove[OF wf assms(2,3)])
  note app = add_node_appends[OF assms(2), of H c]
  have gone_ring: "\<forall>h \<in> set (node_points H r n). h \<notin> set (ring r)"
    using assms(3) by (simp add: fresh_points_def)
  have gone_owner: "\<forall>h \<in> set (node_points H r n). map_of (hash2node r) h = None"
  proof
    fix h assume "h \<in> set (node_points H r n)"
    with gone_ring have "h \<notin> set (ring r)" by simp
    with wf have "h \<notin> fst ` set (hash2node r)" by (auto simp: ring_wf_def)
    then show "map_of (hash2node r) h = None" by (simp add: map_of_eq_None_iff)
  qed
  have m: "mset (ring r) = mset (ring (add_node H r n c)) - mset (node_points H r n)"
    by (simp add: app(1))
  from restored len app m gone_ring gone_owner show ?thesis by simp
qed

theorem add_then_remove_restores_witness:
  "remove_node (add_node toy_hash (run_ops toy_hash ops_ab (init_ring 2)) ''c:3'' 3) ''c:3'' =
     run_ops toy_hash ops_ab (init_ring 2) \<and>
   fresh_points toy_hash (run_ops toy_hash ops_ab (init_ring 2)) ''c:3'' \<and>
   length (node_points toy_hash (run_ops toy_hash ops_ab (init_ring 2)) ''c:3'') = 2"
  using add_then_remove_restores[OF refl unregistered_c3 fresh_c3, of 3] fresh_c3
  by simp

text \<open>
  C7, with its second half corrected. After every sequence of \<^verbatim>\<open>add_node\<close> and
  \<^verbatim>\<open>remove_node\<close> calls from the empty ring, the points are in ascending order; they
  are in strictly ascending order (no value twice) when no inserted point collided. When
  a node is added, each of its points is owned by it afterwards, whoever owned that
  value before (the last writer wins), and the ring holds the old points and all the new
  ones, a value that was there already now being there once more.
\<close>

theorem ring_sorted_after_any_ops:
  assumes "r = run_ops H ops (init_ring v)"
  shows "sorted (ring r) \<and>
     (collision_free H ops (init_ring v) \<longrightarrow> sorted_wrt (<) (ring r)) \<and>
     (map_of (nodes r) n = None \<longrightarrow>
        (\<forall>h \<in> set (node_points H r n). map_of (hash2node (add_node H r n c)) h = Some n) \<and>
        mset (ring (add_node H r n c)) = mset (ring r) + mset (node_points H r n))"
proof (intro conjI impI)
  have wf: "ring_wf r" unfolding assms by (rule ring_wf_reachable)
  then show s: "sorted (ring r)" by (simp add: ring_wf_def)
  {
    assume "collision_free H ops (init_ring v)"
    then have "ring_strict r" unfolding assms by (rule ring_strict_reachable)
    then have "distinct (ring r)" by (simp add: ring_strict_def)
    with s show "sorted_wrt (<) (ring r)" by (simp add: strict_sorted_iff)
  }
  {
    assume un: "map_of (nodes r) n = None"
    from add_node_appends[OF un, of H c]
    show "\<forall>h \<in> set (node_points H r n). map_of (hash2node (add_node H r n c)) h = Some n"
      and "mset (ring (add_node H r n c)) = mset (ring r) + mset (node_points H r n)"
      by simp_all
  }
qed

theorem ring_sorted_after_any_ops_witness:
  "collision_free toy_hash ops_ab (init_ring 2) \<and>
   sorted_wrt (<) (ring (run_ops toy_hash ops_ab (init_ring 2))) \<and>
   map_of (nodes (run_ops toy_hash ops_ab (init_ring 2))) ''c:3'' = None \<and>
   mset (ring (add_node toy_hash (run_ops toy_hash ops_ab (init_ring 2)) ''c:3'' 3)) =
     mset (ring (run_ops toy_hash ops_ab (init_ring 2))) +
     mset (node_points toy_hash (run_ops toy_hash ops_ab (init_ring 2)) ''c:3'')"
  using ring_sorted_after_any_ops[OF refl, of toy_hash ops_ab 2 "''c:3''" 3]
    ops_ab_collision_free unregistered_c3
  by simp

text \<open>
  As stated, C7 fails when points collide: with one point per node and a hash that sends
  the labels of \<^verbatim>\<open>A\<close> and \<^verbatim>\<open>B\<close> to 0, the owner of 0 is \<^verbatim>\<open>B\<close>, the last
  writer, but \<^verbatim>\<open>self.ring.append(h)\<close> has run twice and the ring is \<^verbatim>\<open>[0, 0]\<close>.
\<close>

theorem ring_duplicate_on_collision_counterexample:
  "ring (run_ops const_hash [Add_node ''A'' (1::int), Add_node ''B'' 2] (init_ring 1)) = [0, 0] \<and>
   hash2node (run_ops const_hash [Add_node ''A'' (1::int), Add_node ''B'' 2] (init_ring 1)) = [(0, ''B'')] \<and>
   \<not> sorted_wrt (<) (ring (run_ops const_hash [Add_node ''A'' (1::int), Add_node ''B'' 2] (init_ring 1)))"
proof -
  have 1: "ring (run_ops const_hash [Add_node ''A'' (1::int), Add_node ''B'' 2] (init_ring 1)) = [0, 0]"
    by code_simp
  have 2: "hash2node (run_ops const_hash [Add_node ''A'' (1::int), Add_node ''B'' 2] (init_ring 1)) = [(0, ''B'')]"
    by code_simp
  from 1 2 show ?thesis by simp
qed

text \<open>
  C8. On every ring reached from the empty ring by calls of \<^verbatim>\<open>add_node\<close> and
  \<^verbatim>\<open>remove_node\<close>, \<^verbatim>\<open>get_nodes_for_key(key, 1)\<close> returns, and what it returns is
  the answer of \<^verbatim>\<open>get_node(key)\<close> as a list: the one-element list of the primary
  when there is one, the same error when \<^verbatim>\<open>get_node\<close> raises, the empty list on an
  empty ring. On a non-empty ring in which no inserted point collided there is a primary,
  and the replica set is exactly that one node.
\<close>

theorem one_replica_is_primary:
  assumes "r = run_ops H ops (init_ring v)"
  shows "get_nodes_for_key H r key 1 =
       Some (case get_node H r key of
               Inl e \<Rightarrow> Inl e
             | Inr None \<Rightarrow> Inr []
             | Inr (Some p) \<Rightarrow> Inr [p]) \<and>
     (ring r \<noteq> [] \<and> collision_free H ops (init_ring v) \<longrightarrow>
        (\<exists>p. get_node H r key = Inr (Some p) \<and> get_nodes_for_key H r key 1 = Some (Inr [p])))"
proof -
  have wf: "ring_wf r" unfolding assms by (rule ring_wf_reachable)
  note eq = replica_set_of_one[OF wf, of H key]
  have "ring r \<noteq> [] \<and> collision_free H ops (init_ring v) \<longrightarrow>
        (\<exists>p. get_node H r key = Inr (Some p) \<and> get_nodes_for_key H r key 1 = Some (Inr [p]))"
  proof
    assume a: "ring r \<noteq> [] \<and> collision_free H ops (init_ring v)"
    then have ne: "ring r \<noteq> []" and st: "ring_strict r"
      unfolding assms by (simp_all add: ring_strict_reachable)
    have "sorted (ring r)" using wf by (simp add: ring_wf_def)
    from get_node_successor[OF this ne, of H key] obtain p where
      p: "p \<in> set (ring r)"
      and g: "get_node H r key =
             (case map_of (hash2node r) p of
                None \<Rightarrow> Inl KeyError
              | Some n \<Rightarrow> (case map_of (nodes r) n of
                             None \<Rightarrow> Inl KeyError
                           | Some c \<Rightarrow> Inr (Some (n, c))))"
      by blast
    from strict_owner[OF st p] g obtain n c where
      "get_node H r key = Inr (Some (n, c))" by auto
    with eq show "\<exists>p. get_node H r key = Inr (Some p) \<and> get_nodes_for_key H r key 1 = Some (Inr [p])"
      by simp
  qed
  with eq show ?thesis by simp
qed

theorem one_replica_is_primary_witness:
  "get_nodes_for_key toy_hash (run_ops toy_hash ops_ab (init_ring 2)) ''a:1:1'' 1 =
     Some (Inr [(''b:2'', 2)]) \<and>
   get_node toy_hash (run_ops toy_hash ops_ab (init_ring 2)) ''a:1:1'' = Inr (Some (''b:2'', 2))"
  using one_replica_is_primary[OF refl, of toy_hash ops_ab 2 "''a:1:1''"] get_node_ab(1)
  by simp

section \<open>Concrete replica sets\<close>

lemma key_map_client_ab: "key_map client_ab = []"
  by (simp add: client_ab_def new_client_def)

lemma lookup_none:
  "get_nodes_for_key toy_hash (c_ring (new_client toy_hash (\<lambda>host port. port) [] 2 2)) ''k''
     (replication_factor (new_client toy_hash (\<lambda>host port. port) [] 2 2)) = Some (Inr [])"
  by (simp add: new_client_def init_ring_def get_nodes_for_key_def)

lemma client_ab_kx_simps:
  "c_ring client_ab_kx = c_ring client_ab"
  "replication_factor client_ab_kx = replication_factor client_ab"
  "key_map client_ab_kx = [(''k'', [''b:2'']), (''x'', [''a:1''])]"
  "client_ab_kx\<lparr>key_map := km\<rparr> = client_ab\<lparr>key_map := km\<rparr>"
  by (simp_all add: client_ab_kx_def)

lemma lookup_ab_kx:
  "get_nodes_for_key toy_hash (c_ring client_ab_kx) ''k'' (replication_factor client_ab_kx) =
     Some (Inr [(''a:1'', 1), (''b:2'', 2)])"
  using lookup_ab by (simp add: client_ab_kx_simps)

lemma client_set_ab:
  "client_set toy_hash srv_a_down client_ab ''k'' (PStr [118]) 0 [] =
     Some (Inr ((True, [(''a:1'', False), (''b:2'', True)]),
                client_ab\<lparr>key_map := [(''k'', [''b:2''])]\<rparr>,
                [Set_call 1 ''k'' (PStr [118]) 0, Set_call 2 ''k'' (PStr [118]) 0]))"
  by (simp add: client_set_def lookup_ab srv_a_down_def key_map_client_ab)

lemma client_delete_ab_kx:
  "client_delete toy_hash srv_a_down client_ab_kx ''k'' [] =
     Some (Inr ([(''a:1'', False), (''b:2'', True)],
                client_ab_kx\<lparr>key_map := [(''x'', [''a:1''])]\<rparr>,
                [Delete_call 1 ''k'', Delete_call 2 ''k'']))"
  by (simp add: client_delete_def lookup_ab_kx srv_a_down_def client_ab_kx_simps(3))

section \<open>The lookup returns on every ring built without collisions\<close>

lemma no_points_add_node:
  "replicas r \<le> 0 \<Longrightarrow> ring r = [] \<Longrightarrow> hash2node r = [] \<Longrightarrow>
     ring (add_node H r n c) = [] \<and> hash2node (add_node H r n c) = []"
  by (simp add: add_node_def Let_def)

lemma no_points_remove_node:
  "ring r = [] \<Longrightarrow> hash2node r = [] \<Longrightarrow>
     ring (remove_node r n) = [] \<and> hash2node (remove_node r n) = []"
  by (simp add: remove_node_def Let_def)

lemma no_points_run_ops:
  "replicas r \<le> 0 \<Longrightarrow> ring r = [] \<Longrightarrow> hash2node r = [] \<Longrightarrow> ring (run_ops H ops r) = []"
proof (induction ops arbitrary: r)
  case Nil
  then show ?case by (simp add: run_ops_def)
next
  case (Cons op ops)
  have step: "replicas (apply_op H op r) \<le> 0 \<and> ring (apply_op H op r) = [] \<and>
      hash2node (apply_op H op r) = []"
    using Cons.prems no_points_add_node[of r H] no_points_remove_node[of r]
    by (cases op) simp_all
  have "run_ops H (op # ops) r = run_ops H ops (apply_op H op r)" by (simp add: run_ops_def)
  with Cons.IH[of "apply_op H op r"] step show ?case by simp
qed

lemma lookup_returns:
  assumes "r = run_ops H ops (init_ring v)" and "collision_free H ops (init_ring v)"
  shows "\<exists>ns. get_nodes_for_key H r key cnt = Some (Inr ns)"
proof (cases "ring r = [] \<or> cnt < 0")
  case True
  then show ?thesis
    by (auto simp: get_nodes_for_key_def Let_def nodes_walk_stop)
next
  case False
  have "0 < v"
  proof (rule ccontr)
    assume "\<not> 0 < v"
    then have "ring (run_ops H ops (init_ring v :: 'a hash_ring)) = []"
      by (intro no_points_run_ops) (simp_all add: init_ring_def)
    with False assms(1) show False by simp
  qed
  from ring_covered_reachable[OF assms(2) this] have "ring_covered r" by (simp add: assms(1))
  from replica_set_total[OF this, of cnt H key] False show ?thesis by auto
qed

section \<open>Keys that are any str\<close>

lemma lookup_str_encodable:
  "utf8_encode key = Inr bs \<Longrightarrow> get_nodes_for_key_str H r key cnt = get_nodes_for_key H r bs cnt"
  by (simp add: get_nodes_for_key_str_def get_nodes_for_key_def hash_str_def)

lemma lookup_str_unencodable:
  "utf8_encode key = Inl e \<Longrightarrow>
     get_nodes_for_key_str H r key cnt = (if ring r = [] then Some (Inr []) else Some (Inl e))"
  by (simp add: get_nodes_for_key_str_def hash_str_def)

lemma client_get_str_encodable:
  assumes "utf8_encode key = Inr bs"
  shows "client_get_str H srv cl key w = client_get H srv cl bs w"
proof -
  have wk: "wire_key key = bs" using assms by (simp add: wire_key_def)
  show ?thesis
    unfolding client_get_str_def client_get_def lookup_str_encodable[OF assms] wk ..
qed

lemma char_of_107: "char_of (107::nat) = CHR ''k''"
proof -
  have "char_of (of_char (CHR ''k'') :: nat) = CHR ''k''" by (rule char_of_char)
  then show ?thesis by simp
qed

lemma utf8_encode_k: "utf8_encode [107] = Inr ''k''"
  by (simp add: encode_point_def char_of_107)

lemma utf8_encode_surrogate: "utf8_encode [0xD800] = Inl UnicodeEncodeError"
  by simp

lemma lookup_str_ab:
  "get_nodes_for_key_str toy_hash (c_ring client_ab) [107] (replication_factor client_ab) =
     Some (Inr [(''a:1'', 1), (''b:2'', 2)])"
  using lookup_ab by (simp only: lookup_str_encodable[OF utf8_encode_k])

lemma ring_client_ab_nonempty: "ring (c_ring client_ab) \<noteq> []"
  by code_simp

lemma lookup_str_none:
  "get_nodes_for_key_str toy_hash (c_ring (new_client toy_hash (\<lambda>host port. port) [] 2 2)) [0xD800]
     (replication_factor (new_client toy_hash (\<lambda>host port. port) [] 2 2)) = Some (Inr [])"
  by (simp add: new_client_def init_ring_def get_nodes_for_key_str_def)

lemma wire_key_k: "wire_key [107] = ''k''"
  by (simp add: wire_key_def encode_point_def char_of_107)

lemma lookup_str_returns:
  assumes "r = run_ops H ops (init_ring v)" and "collision_free H ops (init_ring v)"
    and "utf8_encode key = Inr bs \<or> ring r = []"
  shows "\<exists>ns. get_nodes_for_key_str H r key cnt = Some (Inr ns)"
proof (cases "ring r = []")
  case True
  then show ?thesis by (simp add: get_nodes_for_key_str_def)
next
  case False
  with assms(3) have "utf8_encode key = Inr bs" by simp
  from lookup_str_encodable[OF this, of H r cnt] lookup_returns[OF assms(1,2), of bs cnt]
  show ?thesis by simp
qed

lemma c_ring_client_ab: "c_ring client_ab = run_ops toy_hash ops_ab (init_ring 2)"
  by (simp add: client_ab_def new_client_def ops_ab_def run_ops_def str_int_def str_nat.simps)

section \<open>The claims about the client\<close>

text \<open>
  C3. The claim: after \<^verbatim>\<open>set(key, value, ttl)\<close> the bookkeeping entry of the key lists
  exactly the nodes of the replica set on which a write was attempted, whether or not the
  attempt succeeded. The code appends a node to \<^verbatim>\<open>stored_nodes\<close> inside the
  \<^verbatim>\<open>try\<close>, after \<^verbatim>\<open>client.set\<close> has returned, so a node whose write raises is
  left out although its two comments say "where we attempted to store". Here the write
  is attempted on \<^verbatim>\<open>a:1\<close> and on \<^verbatim>\<open>b:2\<close> (both calls are in the history),
  \<^verbatim>\<open>a:1\<close> raises, and the entry of \<^verbatim>\<open>k\<close> is \<^verbatim>\<open>['b:2']\<close>.
\<close>

theorem set_records_only_accepted_nodes:
  "\<exists>success results cl'.
     client_set toy_hash srv_a_down client_ab ''k'' (PStr [118]) 0 [] =
       Some (Inr ((success, results), cl',
                  [Set_call 1 ''k'' (PStr [118]) 0, Set_call 2 ''k'' (PStr [118]) 0])) \<and>
     map_of results ''a:1'' = Some False \<and>
     map_of (key_map cl') ''k'' = Some [''b:2'']"
  by (simp add: client_set_def lookup_ab srv_a_down_def key_map_client_ab) blast

text \<open>
  C4. Whenever the replica set of the key resolves to the list \<open>ns\<close>,
  \<^verbatim>\<open>set(key, value, ttl)\<close> returns, and it has made exactly one \<^verbatim>\<open>client.set\<close> call
  per node of \<open>ns\<close>, in order, whatever the earlier calls answered; the returned map has
  one entry per node of \<open>ns\<close>, true exactly when that node's call did not raise; and
  \<^verbatim>\<open>success\<close> is true exactly when some call did not raise, hence false on an empty
  replica set.
\<close>

theorem set_attempts_every_node:
  assumes "get_nodes_for_key H (c_ring cl) key (replication_factor cl) = Some (Inr ns)"
  shows "\<exists>results success cl'.
     client_set H srv cl key val ttl w =
       Some (Inr ((success, results), cl', w @ map (\<lambda>(n, c). Set_call c key val ttl) ns)) \<and>
     (\<forall>i < length ns. map_of results (fst (ns ! i)) =
        Some (replies srv w (map (\<lambda>(n, c). Set_call c key val ttl) ns) ! i \<noteq> Raises)) \<and>
     fst ` set results = fst ` set ns \<and>
     (success \<longleftrightarrow> (\<exists>i < length ns. replies srv w (map (\<lambda>(n, c). Set_call c key val ttl) ns) ! i \<noteq> Raises)) \<and>
     (ns = [] \<longrightarrow> \<not> success)"
proof -
  obtain results success stored w' where
    L: "set_loop srv key val ttl ns ([], False, [], w) = (results, success, stored, w')"
    by (cases "set_loop srv key val ttl ns ([], False, [], w)") auto
  have d: "distinct (map fst ns)" using get_nodes_for_key_distinct[OF assms] by simp
  have w': "w' = w @ map (\<lambda>(n, c). Set_call c key val ttl) ns"
    using set_loop_history[of srv key val ttl ns "[]" False "[]" w] L by simp
  have r: "\<forall>i < length ns. map_of results (fst (ns ! i)) =
        Some (replies srv w (map (\<lambda>(n, c). Set_call c key val ttl) ns) ! i \<noteq> Raises)"
    using set_loop_results_nth[OF d, of _ srv key val ttl "[]" False "[]" w] L by simp
  have k: "fst ` set results = fst ` set ns"
    using set_loop_results_keys[of srv key val ttl ns "[]" False "[]" w] L by simp
  have s: "success \<longleftrightarrow> (\<exists>i < length ns. replies srv w (map (\<lambda>(n, c). Set_call c key val ttl) ns) ! i \<noteq> Raises)"
    using set_loop_success[of srv key val ttl ns "[]" False "[]" w] L by simp
  have "client_set H srv cl key val ttl w =
       Some (Inr ((success, results), cl\<lparr>key_map := AList.update key stored (key_map cl)\<rparr>, w'))"
    by (simp add: client_set_def assms L)
  with w' r k s show ?thesis by auto
qed

theorem set_attempts_every_node_witness:
  "client_set toy_hash srv_a_down client_ab ''k'' (PStr [118]) 0 [] =
     Some (Inr ((True, [(''a:1'', False), (''b:2'', True)]),
                client_ab\<lparr>key_map := [(''k'', [''b:2''])]\<rparr>,
                [Set_call 1 ''k'' (PStr [118]) 0, Set_call 2 ''k'' (PStr [118]) 0]))"
  using set_attempts_every_node[OF lookup_ab, of srv_a_down "PStr [118]" 0 "[]"] client_set_ab
  by simp

text \<open>
  C5, with its scope made explicit. On a client whose ring was built by calls of
  \<^verbatim>\<open>add_node\<close> and \<^verbatim>\<open>remove_node\<close> without colliding points, the lookup of the
  replica set in \<^verbatim>\<open>get(key)\<close> returns a list for every key, a \<^verbatim>\<open>str\<close>, that has
  a UTF-8 encoding, and for every key whatsoever while the ring has no points. Whenever
  that lookup returns a list \<open>ns\<close>, \<^verbatim>\<open>get(key)\<close> returns a value and never an
  error. If the node at position \<open>j\<close> is the first whose \<^verbatim>\<open>client.get\<close> returns a
  value \<open>val\<close> other than \<^verbatim>\<open>None\<close>, every earlier node having raised or returned
  \<^verbatim>\<open>None\<close>, then exactly the nodes at positions \<open>0, \<dots>, j\<close> have been queried, in
  that order, and the result is \<open>val\<close> as \<open>decode_value\<close> delivers it. If every
  node raises or returns \<^verbatim>\<open>None\<close> (so also on an empty replica set), all of them
  have been queried in order and the result is \<^verbatim>\<open>None\<close>. The key that the nodes are
  handed is the key by its bytes, unless no node is queried at all.
\<close>

theorem get_priority_order:
  "(c_ring cl = run_ops H ops (init_ring v) \<and> collision_free H ops (init_ring v) \<and>
    (utf8_encode key = Inr bs \<or> ring (c_ring cl) = [])
    \<longrightarrow> (\<exists>ns. get_nodes_for_key_str H (c_ring cl) key (replication_factor cl) = Some (Inr ns))) \<and>
   (get_nodes_for_key_str H (c_ring cl) key (replication_factor cl) = Some (Inr ns)
    \<longrightarrow> (\<forall>j val. j < length ns \<and>
            replies srv w (map (\<lambda>(n, c). Get_call c (wire_key key)) ns) ! j = Returns val \<and> val \<noteq> PNone \<and>
            (\<forall>i < j. replies srv w (map (\<lambda>(n, c). Get_call c (wire_key key)) ns) ! i = Raises \<or>
                     replies srv w (map (\<lambda>(n, c). Get_call c (wire_key key)) ns) ! i = Returns PNone)
          \<longrightarrow> client_get_str H srv cl key w =
                Some (Inr (decode_value val,
                           w @ take (Suc j) (map (\<lambda>(n, c). Get_call c (wire_key key)) ns)))) \<and>
         ((\<forall>i < length ns. replies srv w (map (\<lambda>(n, c). Get_call c (wire_key key)) ns) ! i = Raises \<or>
                            replies srv w (map (\<lambda>(n, c). Get_call c (wire_key key)) ns) ! i = Returns PNone)
          \<longrightarrow> client_get_str H srv cl key w =
                Some (Inr (PNone, w @ map (\<lambda>(n, c). Get_call c (wire_key key)) ns))) \<and>
         (\<exists>x w'. client_get_str H srv cl key w = Some (Inr (x, w'))) \<and>
         (utf8_encode key = Inr (wire_key key) \<or> ns = []))"
proof (intro conjI allI impI)
  assume "c_ring cl = run_ops H ops (init_ring v) \<and> collision_free H ops (init_ring v) \<and>
    (utf8_encode key = Inr bs \<or> ring (c_ring cl) = [])"
  then show "\<exists>ns. get_nodes_for_key_str H (c_ring cl) key (replication_factor cl) = Some (Inr ns)"
    using lookup_str_returns[of "c_ring cl" H ops v key bs "replication_factor cl"] by blast
next
  fix j val
  assume g: "get_nodes_for_key_str H (c_ring cl) key (replication_factor cl) = Some (Inr ns)"
  assume "j < length ns \<and>
      replies srv w (map (\<lambda>(n, c). Get_call c (wire_key key)) ns) ! j = Returns val \<and> val \<noteq> PNone \<and>
      (\<forall>i < j. replies srv w (map (\<lambda>(n, c). Get_call c (wire_key key)) ns) ! i = Raises \<or>
               replies srv w (map (\<lambda>(n, c). Get_call c (wire_key key)) ns) ! i = Returns PNone)"
  then have "get_loop srv (wire_key key) ns w =
      (decode_value val, w @ take (Suc j) (map (\<lambda>(n, c). Get_call c (wire_key key)) ns))"
    using get_loop_hit[of j ns srv w "wire_key key" val] by blast
  then show "client_get_str H srv cl key w =
      Some (Inr (decode_value val, w @ take (Suc j) (map (\<lambda>(n, c). Get_call c (wire_key key)) ns)))"
    by (simp add: client_get_str_def g)
next
  assume g: "get_nodes_for_key_str H (c_ring cl) key (replication_factor cl) = Some (Inr ns)"
  assume "\<forall>i < length ns. replies srv w (map (\<lambda>(n, c). Get_call c (wire_key key)) ns) ! i = Raises \<or>
                            replies srv w (map (\<lambda>(n, c). Get_call c (wire_key key)) ns) ! i = Returns PNone"
  from get_loop_miss[OF this]
  show "client_get_str H srv cl key w =
      Some (Inr (PNone, w @ map (\<lambda>(n, c). Get_call c (wire_key key)) ns))"
    by (simp add: client_get_str_def g)
next
  assume g: "get_nodes_for_key_str H (c_ring cl) key (replication_factor cl) = Some (Inr ns)"
  show "\<exists>x w'. client_get_str H srv cl key w = Some (Inr (x, w'))"
    by (cases "get_loop srv (wire_key key) ns w") (simp add: client_get_str_def g)
next
  assume g: "get_nodes_for_key_str H (c_ring cl) key (replication_factor cl) = Some (Inr ns)"
  show "utf8_encode key = Inr (wire_key key) \<or> ns = []"
  proof (cases "utf8_encode key")
    case (Inl e)
    with g lookup_str_unencodable[OF Inl, of H "c_ring cl" "replication_factor cl"]
    show ?thesis by (simp split: if_splits)
  next
    case (Inr bs)
    then show ?thesis by (simp add: wire_key_def)
  qed
qed

theorem get_priority_order_witness:
  "(\<exists>ns. get_nodes_for_key_str toy_hash (c_ring client_ab) [107] (replication_factor client_ab) =
      Some (Inr ns)) \<and>
   client_get_str toy_hash srv_a_down client_ab [107] [] =
     Some (Inr (PStr [118], [Get_call 1 ''k'', Get_call 2 ''k''])) \<and>
   client_get_str toy_hash srv_all_down client_ab [107] [] =
     Some (Inr (PNone, [Get_call 1 ''k'', Get_call 2 ''k''])) \<and>
   client_get_str toy_hash srv_a_down (new_client toy_hash (\<lambda>host port. port) [] 2 2) [0xD800] [] =
     Some (Inr (PNone, []))"
proof (intro conjI)
  show "\<exists>ns. get_nodes_for_key_str toy_hash (c_ring client_ab) [107] (replication_factor client_ab) =
      Some (Inr ns)"
    using get_priority_order[where cl = client_ab and H = toy_hash and ops = ops_ab and v = 2
        and key = "[107]" and bs = "''k''", THEN conjunct1]
      c_ring_client_ab ops_ab_collision_free utf8_encode_k
    by simp
next
  have "client_get_str toy_hash srv_a_down client_ab [107] [] =
     Some (Inr (decode_value (PBytes [0x76]),
                [] @ take (Suc 1) (map (\<lambda>(n, c). Get_call c (wire_key [107])) [(''a:1'', 1), (''b:2'', 2)])))"
    using get_priority_order[where srv = srv_a_down and w = "[]", THEN conjunct2, rule_format,
        OF lookup_str_ab, THEN conjunct1, rule_format, where j = 1 and val = "PBytes [0x76]"]
    by (simp add: srv_a_down_def)
  then show "client_get_str toy_hash srv_a_down client_ab [107] [] =
     Some (Inr (PStr [118], [Get_call 1 ''k'', Get_call 2 ''k'']))"
    by (simp add: decode_value_def wire_key_k)
next
  show "client_get_str toy_hash srv_all_down client_ab [107] [] =
     Some (Inr (PNone, [Get_call 1 ''k'', Get_call 2 ''k'']))"
    using get_priority_order[where srv = srv_all_down and w = "[]", THEN conjunct2, rule_format,
        OF lookup_str_ab, THEN conjunct2, THEN conjunct1]
    by (simp add: srv_all_down_def All_less_Suc wire_key_k)
next
  show "client_get_str toy_hash srv_a_down (new_client toy_hash (\<lambda>host port. port) [] 2 2) [0xD800] [] =
     Some (Inr (PNone, []))"
    using get_priority_order[where srv = srv_a_down and w = "[]", THEN conjunct2, rule_format,
        OF lookup_str_none, THEN conjunct2, THEN conjunct1]
    by simp
qed

text \<open>
  As stated, for every key, C5 fails in its last clause: the lookup is not inside the
  \<^verbatim>\<open>try\<close> of \<^verbatim>\<open>get\<close>, and on a ring that has points it hashes the key with
  \<^verbatim>\<open>key.encode()\<close>, which raises \<^verbatim>\<open>UnicodeEncodeError\<close> on the key
  \<^verbatim>\<open>chr(0xD800)\<close>; that error reaches the caller of \<^verbatim>\<open>get\<close>.
\<close>

theorem get_unencodable_key_counterexample:
  "ring (c_ring client_ab) \<noteq> [] \<and>
   utf8_encode [0xD800] = Inl UnicodeEncodeError \<and>
   client_get_str toy_hash srv_a_down client_ab [0xD800] [] = Some (Inl UnicodeEncodeError)"
  using ring_client_ab_nonempty
  by (simp add: client_get_str_def get_nodes_for_key_str_def hash_str_def)

text \<open>
  C9. Whenever the replica set of the key resolves to the list \<open>ns\<close>,
  \<^verbatim>\<open>delete(key)\<close> returns, having made exactly one \<^verbatim>\<open>client.delete\<close> call per node
  of \<open>ns\<close>, in order, whatever the earlier calls answered; the returned map has one
  entry per node of \<open>ns\<close>, true exactly when that node's call did not raise; afterwards
  the bookkeeping has no entry for the key, and the entry of every other key, the ring
  and the replication factor are as before.
\<close>

theorem delete_every_node_and_forgets_key:
  assumes "get_nodes_for_key H (c_ring cl) key (replication_factor cl) = Some (Inr ns)"
  shows "\<exists>results cl'.
     client_delete H srv cl key w =
       Some (Inr (results, cl', w @ map (\<lambda>(n, c). Delete_call c key) ns)) \<and>
     (\<forall>i < length ns. map_of results (fst (ns ! i)) =
        Some (replies srv w (map (\<lambda>(n, c). Delete_call c key) ns) ! i \<noteq> Raises)) \<and>
     fst ` set results = fst ` set ns \<and>
     map_of (key_map cl') key = None \<and>
     (\<forall>k. k \<noteq> key \<longrightarrow> map_of (key_map cl') k = map_of (key_map cl) k) \<and>
     c_ring cl' = c_ring cl \<and> replication_factor cl' = replication_factor cl"
proof -
  obtain results w' where L: "delete_loop srv key ns ([], w) = (results, w')"
    by (cases "delete_loop srv key ns ([], w)") auto
  define km where "km = (if map_of (key_map cl) key \<noteq> None
                          then AList.delete key (key_map cl) else key_map cl)"
  have d: "distinct (map fst ns)" using get_nodes_for_key_distinct[OF assms] by simp
  have w': "w' = w @ map (\<lambda>(n, c). Delete_call c key) ns"
    using delete_loop_history[of srv key ns "[]" w] L by simp
  have r: "\<forall>i < length ns. map_of results (fst (ns ! i)) =
        Some (replies srv w (map (\<lambda>(n, c). Delete_call c key) ns) ! i \<noteq> Raises)"
    using delete_loop_results_nth[OF d, of _ srv key "[]" w] L by simp
  have k: "fst ` set results = fst ` set ns"
    using delete_loop_results_keys[of srv key ns "[]" w] L by simp
  have gone: "map_of km key = None"
    by (auto simp: km_def delete_conv')
  have frame: "\<forall>k. k \<noteq> key \<longrightarrow> map_of km k = map_of (key_map cl) k"
    by (auto simp: km_def delete_conv')
  have "client_delete H srv cl key w = Some (Inr (results, cl\<lparr>key_map := km\<rparr>, w'))"
    by (simp add: client_delete_def assms L km_def)
  with w' r k gone frame show ?thesis by auto
qed

theorem delete_every_node_and_forgets_key_witness:
  "client_delete toy_hash srv_a_down client_ab_kx ''k'' [] =
     Some (Inr ([(''a:1'', False), (''b:2'', True)],
                client_ab\<lparr>key_map := [(''x'', [''a:1''])]\<rparr>,
                [Delete_call 1 ''k'', Delete_call 2 ''k'']))"
  using delete_every_node_and_forgets_key[OF lookup_ab_kx, of srv_a_down "[]"] client_delete_ab_kx
  by (simp add: client_ab_kx_simps(4))

text \<open>
  C10. Whenever the replica set of the key resolves and the node at position \<open>j\<close> is
  the first whose \<^verbatim>\<open>client.get\<close> returns a value \<open>v\<close> other than \<^verbatim>\<open>None\<close>
  (every earlier node having raised or returned \<^verbatim>\<open>None\<close>), \<^verbatim>\<open>get(key)\<close> returns:
  the decoded string when \<open>v\<close> is a bytes object that is valid UTF-8, the same bytes
  object when it is not, and \<open>v\<close> itself when \<open>v\<close> is not a bytes object.
\<close>

theorem get_decodes_bytes:
  assumes "get_nodes_for_key H (c_ring cl) key (replication_factor cl) = Some (Inr ns)"
    and "j < length ns"
    and "replies srv w (map (\<lambda>(n, c). Get_call c key) ns) ! j = Returns v" and "v \<noteq> PNone"
    and "\<forall>i < j. replies srv w (map (\<lambda>(n, c). Get_call c key) ns) ! i = Raises \<or>
                  replies srv w (map (\<lambda>(n, c). Get_call c key) ns) ! i = Returns PNone"
  shows "\<exists>w'. client_get H srv cl key w =
           Some (Inr ((case v of
                         PBytes b \<Rightarrow> (case utf8_decode b of Some s \<Rightarrow> PStr s | None \<Rightarrow> PBytes b)
                       | _ \<Rightarrow> v), w'))"
proof -
  have "get_loop srv key ns w =
      (decode_value v, w @ take (Suc j) (map (\<lambda>(n, c). Get_call c key) ns))"
    using get_loop_hit[OF assms(2,3,4,5)] .
  then show ?thesis
    by (simp add: client_get_def assms(1) decode_value_def split: pyval.splits option.splits)
qed

theorem get_decodes_bytes_witness:
  "(\<exists>w'. client_get toy_hash srv_a_down client_ab ''k'' [] = Some (Inr (PStr [118], w'))) \<and>
   (\<exists>w'. client_get toy_hash srv_a_junk client_ab ''k'' [] = Some (Inr (PBytes [0xFF], w'))) \<and>
   (\<exists>w'. client_get toy_hash srv_a_none client_ab ''k'' [] = Some (Inr (PInt 7, w')))"
proof (intro conjI)
  show "\<exists>w'. client_get toy_hash srv_a_down client_ab ''k'' [] = Some (Inr (PStr [118], w'))"
    using get_decodes_bytes[OF lookup_ab, of 1 srv_a_down "[]" "PBytes [0x76]"]
    by (simp add: srv_a_down_def)
next
  show "\<exists>w'. client_get toy_hash srv_a_junk client_ab ''k'' [] = Some (Inr (PBytes [0xFF], w'))"
    using get_decodes_bytes[OF lookup_ab, of 0 srv_a_junk "[]" "PBytes [0xFF]"]
    by (simp add: srv_a_junk_def)
next
  show "\<exists>w'. client_get toy_hash srv_a_none client_ab ''k'' [] = Some (Inr (PInt 7, w'))"
    using get_decodes_bytes[OF lookup_ab, of 1 srv_a_none "[]" "PInt 7"]
    by (simp add: srv_a_none_def)
qed

end
